theory Spec2Isabelle
  imports Main
begin

section \<open>JavaScript values used by the source-code model\<close>

text \<open>
  A JavaScript string is a sequence of UTF-16 code units. Code units are natural numbers
  here, so that the whole white-space class of a regular expression can be written down;
  \<open>js\<close> turns a literal of the theory into such a string.
\<close>

type_synonym jsstring = "nat list"

definition js :: "string \<Rightarrow> jsstring" where
  "js s = map of_char s"

text \<open>\<open>String.prototype.endsWith\<close>.\<close>

definition endsWith :: "jsstring \<Rightarrow> jsstring \<Rightarrow> bool" where
  "endsWith s suffix =
     (length suffix \<le> length s \<and> drop (length s - length suffix) s = suffix)"

text \<open>\<open>String.prototype.slice(from)\<close> and \<open>slice(from, to)\<close> for a non-negative \<open>from\<close>.\<close>

definition slice_from :: "jsstring \<Rightarrow> nat \<Rightarrow> jsstring" where
  "slice_from s from_index = drop from_index s"

definition slice :: "jsstring \<Rightarrow> nat \<Rightarrow> nat \<Rightarrow> jsstring" where
  "slice s from_index to_index = drop from_index (take to_index s)"

text \<open>
  \<open>slice(from, -k)\<close>: a negative end counts from the end of the string and is clamped
  at the start.
\<close>

definition slice_to_end_minus :: "jsstring \<Rightarrow> nat \<Rightarrow> nat \<Rightarrow> jsstring" where
  "slice_to_end_minus s from_index k = slice s from_index (length s - k)"

text \<open>An array read \<open>xs[i]\<close>: \<open>undefined\<close> (here \<open>None\<close>) out of range.\<close>

definition at_index :: "'a list \<Rightarrow> nat \<Rightarrow> 'a option" where
  "at_index xs i = (if i < length xs then Some (xs ! i) else None)"

text \<open>What a method of the model can throw.\<close>

datatype js_error = Error jsstring | TypeError

section \<open>Data model: tokens, nodes, the document\<close>

record position =
  line :: nat
  column :: nat

record location =
  loc_start :: position
  loc_end :: position

text \<open>A token of the external tokenizer: \<open>type\<close>, \<open>range\<close> and \<open>loc\<close>.\<close>

record token =
  tok_type :: jsstring
  tok_range :: "nat \<times> nat"
  tok_loc :: location

text \<open>
  An AST node. \<open>nid\<close> is the identity of the JavaScript object (what a \<open>WeakMap\<close> keys
  on); \<open>children\<close> is the node's child sequence. The \<open>range\<close> property is optional: a
  node object need not carry one (the wrapper nodes around the elements of an array
  carry none), and reading an index of the missing property raises a \<open>TypeError\<close>.
\<close>

datatype node =
  Node (nid: nat) (node_type: jsstring) (node_range: "(nat \<times> nat) option")
    (node_loc: location) (children: "node list")

text \<open>The root \<open>DocumentNode\<close>: the node itself and its optional \<open>tokens\<close> property.\<close>

record document_node =
  doc :: node
  tokens :: "token list option"

text \<open>
  The argument of the token queries: \<open>AnyNode | Token\<close>; only its range is read. A token
  of the stream has its range (\<open>processTokens\<close> reads it of every token); a node has it
  or not.
\<close>

datatype syntax_element = ANode node | AToken token

fun range_of :: "syntax_element \<Rightarrow> (nat \<times> nat) option" where
  "range_of (ANode n) = node_range n"
| "range_of (AToken t) = Some (tok_range t)"

definition is_comment :: "token \<Rightarrow> bool" where
  "is_comment t = endsWith (tok_type t) (js ''Comment'')"

section \<open>processTokens\<close>

record processed_tokens =
  p_comments :: "token list"
  p_starts :: "nat \<rightharpoonup> nat"
  p_ends :: "nat \<rightharpoonup> nat"

text \<open>
  The body of the \<open>for\<close> loop at index \<open>i\<close>, and the loop itself over the tokens from
  index \<open>i\<close> on.
\<close>

definition processTokens_body :: "nat \<Rightarrow> token \<Rightarrow> processed_tokens \<Rightarrow> processed_tokens" where
  "processTokens_body i t acc =
     \<lparr> p_comments = (if is_comment t then p_comments acc @ [t] else p_comments acc),
       p_starts = (p_starts acc)(fst (tok_range t) \<mapsto> i),
       p_ends = (p_ends acc)(snd (tok_range t) \<mapsto> i) \<rparr>"

fun processTokens_loop :: "nat \<Rightarrow> token list \<Rightarrow> processed_tokens \<Rightarrow> processed_tokens" where
  "processTokens_loop i [] acc = acc"
| "processTokens_loop i (t # ts) acc = processTokens_loop (Suc i) ts (processTokens_body i t acc)"

definition processTokens :: "token list \<Rightarrow> processed_tokens" where
  "processTokens toks =
     processTokens_loop 0 toks \<lparr> p_comments = [], p_starts = Map.empty, p_ends = Map.empty \<rparr>"

section \<open>The comment parser (external collaborator)\<close>

text \<open>
  \<open>ConfigCommentParser\<close> of the plugin kit is not part of the repository. Its two
  functions are parameters of the model: \<open>parseDirective\<close> splits a comment body into
  label, value and justification or returns \<open>undefined\<close>; \<open>parseJSONLikeConfig\<close>
  returns \<open>{ok: true, config}\<close> or \<open>{ok: false, error: {message}}\<close>.
\<close>

record directive_comment =
  label :: jsstring
  dc_value :: jsstring
  justification :: "jsstring option"

datatype 'cfg parse_result = ParseOk 'cfg | ParseFailed jsstring

record 'cfg comment_parser =
  parseDirective :: "jsstring \<Rightarrow> directive_comment option"
  parseJSONLikeConfig :: "jsstring \<Rightarrow> 'cfg parse_result"

text \<open>The objects the two extraction methods build.\<close>

record file_problem =
  ruleId :: "jsstring option"
  message :: jsstring
  problem_loc :: location

record directive =
  dir_type :: jsstring
  dir_node :: token
  dir_value :: jsstring
  dir_justification :: "jsstring option"

record 'cfg rules_config =
  rules :: 'cfg

record 'cfg inline_config =
  config :: "'cfg rules_config"
  config_loc :: location

record disable_directives =
  dd_problems :: "file_problem list"
  dd_directives :: "directive list"

record 'cfg inline_configs =
  ic_configs :: "'cfg inline_config list"
  ic_problems :: "file_problem list"

section \<open>Traversal steps and iteration\<close>

text \<open>
  A \<open>JSONTraversalStep\<close>: target, phase (1 on entering, 2 on leaving) and the argument
  array \<open>[node, parent]\<close>.
\<close>

record traversal_step =
  target :: node
  phase :: nat
  args :: "node \<times> node option"

text \<open>
  What \<open>traverse\<close> returns is either the step array itself or the array iterator that
  \<open>Array.prototype.values\<close> creates: the array with a cursor. An array is iterated by
  creating a new array iterator at cursor 0; an array iterator is its own iterator.
  \<open>iterator_next\<close> is the \<open>next\<close> method; a result \<open>None\<close> is \<open>{done: true}\<close>.
\<close>

datatype 'a array_iterator = ArrayIterator "'a list" nat

datatype 'a iterable = ArrayObject "'a list" | IteratorObject "'a array_iterator"

fun iterator_next :: "'a array_iterator \<Rightarrow> 'a option \<times> 'a array_iterator" where
  "iterator_next (ArrayIterator xs i) =
     (if i < length xs then (Some (xs ! i), ArrayIterator xs (Suc i))
      else (None, ArrayIterator xs i))"

function drain :: "'a array_iterator \<Rightarrow> 'a list \<times> 'a array_iterator" where
  "drain (ArrayIterator xs i) =
     (if i < length xs
      then (let r = drain (ArrayIterator xs (Suc i)) in (xs ! i # fst r, snd r))
      else ([], ArrayIterator xs i))"
  by pat_completeness auto
termination
  by (relation "measure (\<lambda>it. case it of ArrayIterator xs i \<Rightarrow> length xs - i)") auto

text \<open>
  A \<open>for ... of\<close> loop over the object: the elements it yields, and the object after
  the loop.
\<close>

fun for_of :: "'a iterable \<Rightarrow> 'a list \<times> 'a iterable" where
  "for_of (ArrayObject xs) = (fst (drain (ArrayIterator xs 0)), ArrayObject xs)"
| "for_of (IteratorObject it) = (fst (drain it), IteratorObject (snd (drain it)))"

text \<open>
  Modelled from the spec: \<open>iterator\<close> of the external parser library is not in the
  sources. The specification (4.2) has it walk the AST depth-first: for every node an
  enter event before its children are visited and an exit event after all of them, the
  children in the order of the node's child sequence, each event carrying the node and
  its parent (none for the root).
\<close>

datatype iter_phase = enter | exit

record iter_event =
  ev_node :: node
  ev_parent :: "node option"
  ev_phase :: iter_phase

fun visitNode :: "node \<Rightarrow> node option \<Rightarrow> iter_event list" where
  "visitNode (Node i ty r l cs) parent =
     \<lparr> ev_node = Node i ty r l cs, ev_parent = parent, ev_phase = enter \<rparr>
       # concat (map (\<lambda>c. visitNode c (Some (Node i ty r l cs))) cs)
       @ [\<lparr> ev_node = Node i ty r l cs, ev_parent = parent, ev_phase = exit \<rparr>]"

definition iterator :: "node \<Rightarrow> iter_event list" where
  "iterator root = visitNode root None"

section \<open>JSONSourceCode\<close>

text \<open>
  The instance state: the text and the AST, the private caches \<open>#steps\<close>,
  \<open>#parents\<close> (keyed by node identity) and \<open>#inlineConfigComments\<close>, the comment list
  and the two private boundary maps.
\<close>

record source_code =
  src_text :: jsstring
  ast :: document_node
  steps :: "traversal_step list option"
  parents :: "nat \<rightharpoonup> node"
  inlineConfigComments :: "token list option"
  comments :: "token list"
  tokenStarts :: "nat \<rightharpoonup> nat"
  tokenEnds :: "nat \<rightharpoonup> nat"

text \<open>The constructor; an absent token array is read as the empty array.\<close>

definition JSONSourceCode :: "jsstring \<Rightarrow> document_node \<Rightarrow> source_code" where
  "JSONSourceCode txt a =
     (let p = processTokens (case tokens a of None \<Rightarrow> [] | Some toks \<Rightarrow> toks)
      in \<lparr> src_text = txt, ast = a, steps = None, parents = Map.empty,
           inlineConfigComments = None, comments = p_comments p,
           tokenStarts = p_starts p, tokenEnds = p_ends p \<rparr>)"

text \<open>
  Modelled from the spec: \<open>getText\<close> is inherited from the plugin kit's base class,
  which is not in the sources. By the specification (3) a token covers the half-open
  range \<open>[start, end)\<close> of the text.
\<close>

definition getText :: "source_code \<Rightarrow> token \<Rightarrow> jsstring" where
  "getText sc t = slice (src_text sc) (fst (tok_range t)) (snd (tok_range t))"

text \<open>\<open>#getCommentValue\<close>: the comment without its delimiters.\<close>

definition getCommentValue :: "source_code \<Rightarrow> token \<Rightarrow> js_error + jsstring" where
  "getCommentValue sc comment =
     (if tok_type comment = js ''LineComment''
      then Inr (slice_from (getText sc comment) 2)
      else if tok_type comment = js ''BlockComment''
      then Inr (slice_to_end_minus (getText sc comment) 2 2)
      else Inl (Error (js ''Unexpected comment type '' @ [0x27] @ tok_type comment @ [0x27])))"

text \<open>
  The regular expression \<open>INLINE_CONFIG\<close>:
  \<open>^\s*(?:eslint(?:-enable|-disable(?:(?:-next)?-line)?)?)(?:\s|$)\<close>.
  \<open>is_space\<close> is the class \<open>\s\<close>. After the leading white space the text has to go on
  with one of the five words the middle group matches, followed by white space or the end
  of the text.
\<close>

definition is_space :: "nat \<Rightarrow> bool" where
  "is_space c =
     (c \<in> {0x09, 0x0A, 0x0B, 0x0C, 0x0D, 0x20, 0xA0, 0x1680, 0x2028, 0x2029, 0x202F,
            0x205F, 0x3000, 0xFEFF}
      \<or> (0x2000 \<le> c \<and> c \<le> 0x200A))"

definition startsWith :: "jsstring \<Rightarrow> jsstring \<Rightarrow> bool" where
  "startsWith s prefix = (take (length prefix) s = prefix)"

definition space_or_end :: "jsstring \<Rightarrow> bool" where
  "space_or_end s = (case s of [] \<Rightarrow> True | c # _ \<Rightarrow> is_space c)"

definition INLINE_CONFIG_words :: "jsstring list" where
  "INLINE_CONFIG_words =
     [js ''eslint'', js ''eslint-enable'', js ''eslint-disable'',
      js ''eslint-disable-line'', js ''eslint-disable-next-line'']"

definition INLINE_CONFIG_test :: "jsstring \<Rightarrow> bool" where
  "INLINE_CONFIG_test s =
     (let r = dropWhile is_space s
      in list_ex (\<lambda>w. startsWith r w \<and> space_or_end (drop (length w) r)) INLINE_CONFIG_words)"

text \<open>
  A method that can throw returns its result or the error together with the instance
  as the call leaves it: what was assigned before a \<open>throw\<close> stays assigned.

  \<open>Array.prototype.filter\<close> with the callback of \<open>getInlineConfigNodes\<close>, which throws
  where \<open>#getCommentValue\<close> throws; the first comment that throws ends the call.
\<close>

fun filter_inline_config :: "source_code \<Rightarrow> token list \<Rightarrow> js_error + token list" where
  "filter_inline_config sc [] = Inr []"
| "filter_inline_config sc (comment # rest) =
     (case getCommentValue sc comment of
        Inl e \<Rightarrow> Inl e
      | Inr v \<Rightarrow>
          (case filter_inline_config sc rest of
             Inl e \<Rightarrow> Inl e
           | Inr kept \<Rightarrow> Inr (if INLINE_CONFIG_test v then comment # kept else kept)))"

definition getInlineConfigNodes :: "source_code \<Rightarrow> (js_error + token list) \<times> source_code" where
  "getInlineConfigNodes sc =
     (case inlineConfigComments sc of
        Some cached \<Rightarrow> (Inr cached, sc)
      | None \<Rightarrow>
          (case filter_inline_config sc (comments sc) of
             Inl e \<Rightarrow> (Inl e, sc)
           | Inr kept \<Rightarrow> (Inr kept, sc\<lparr> inlineConfigComments := Some kept \<rparr>)))"

text \<open>\<open>Array.prototype.forEach\<close> with a callback that updates local state and may throw.\<close>

fun forEach :: "('s \<Rightarrow> 'a \<Rightarrow> js_error + 's) \<Rightarrow> 'a list \<Rightarrow> 's \<Rightarrow> js_error + 's" where
  "forEach f [] s = Inr s"
| "forEach f (x # xs) s = (case f s x of Inl e \<Rightarrow> Inl e | Inr s' \<Rightarrow> forEach f xs s')"

text \<open>
  The callback of \<open>getDisableDirectives\<close>. Destructuring the \<open>undefined\<close> that
  \<open>parseDirective\<close> may return throws a \<open>TypeError\<close>.
\<close>

definition directive_labels :: "jsstring list" where
  "directive_labels =
     [js ''eslint-disable'', js ''eslint-enable'', js ''eslint-disable-next-line'',
      js ''eslint-disable-line'']"

definition getDisableDirectives_callback ::
  "'cfg comment_parser \<Rightarrow> source_code \<Rightarrow> disable_directives \<Rightarrow> token
    \<Rightarrow> js_error + disable_directives" where
  "getDisableDirectives_callback commentParser sc acc comment =
     (case getCommentValue sc comment of
        Inl e \<Rightarrow> Inl e
      | Inr v \<Rightarrow>
          (case parseDirective commentParser v of
             None \<Rightarrow> Inl TypeError
           | Some d \<Rightarrow>
               if label d = js ''eslint-disable-line''
                  \<and> line (loc_start (tok_loc comment)) \<noteq> line (loc_end (tok_loc comment))
               then Inr (acc\<lparr> dd_problems := dd_problems acc @
                      [\<lparr> ruleId = None,
                         message = label d @ js '' comment should not span multiple lines.'',
                         problem_loc = tok_loc comment \<rparr>] \<rparr>)
               else if label d \<in> set directive_labels
               then Inr (acc\<lparr> dd_directives := dd_directives acc @
                      [\<lparr> dir_type = slice_from (label d) (length (js ''eslint-'')),
                         dir_node = comment,
                         dir_value = dc_value d,
                         dir_justification = justification d \<rparr>] \<rparr>)
               else Inr acc))"

definition getDisableDirectives ::
  "'cfg comment_parser \<Rightarrow> source_code \<Rightarrow> (js_error + disable_directives) \<times> source_code" where
  "getDisableDirectives commentParser sc =
     (case getInlineConfigNodes sc of
        (Inl e, sc') \<Rightarrow> (Inl e, sc')
      | (Inr nodes, sc') \<Rightarrow>
          (forEach (getDisableDirectives_callback commentParser sc') nodes
             \<lparr> dd_problems = [], dd_directives = [] \<rparr>, sc'))"

text \<open>The callback of \<open>applyInlineConfig\<close>.\<close>

definition applyInlineConfig_callback ::
  "'cfg comment_parser \<Rightarrow> source_code \<Rightarrow> 'cfg inline_configs \<Rightarrow> token
    \<Rightarrow> js_error + 'cfg inline_configs" where
  "applyInlineConfig_callback commentParser sc acc comment =
     (case getCommentValue sc comment of
        Inl e \<Rightarrow> Inl e
      | Inr v \<Rightarrow>
          (case parseDirective commentParser v of
             None \<Rightarrow> Inl TypeError
           | Some d \<Rightarrow>
               if label d = js ''eslint''
               then (case parseJSONLikeConfig commentParser (dc_value d) of
                       ParseOk parsed \<Rightarrow>
                         Inr (acc\<lparr> ic_configs := ic_configs acc @
                           [\<lparr> config = \<lparr> rules = parsed \<rparr>, config_loc = tok_loc comment \<rparr>] \<rparr>)
                     | ParseFailed msg \<Rightarrow>
                         Inr (acc\<lparr> ic_problems := ic_problems acc @
                           [\<lparr> ruleId = None, message = msg,
                              problem_loc = tok_loc comment \<rparr>] \<rparr>))
               else Inr acc))"

definition applyInlineConfig ::
  "'cfg comment_parser \<Rightarrow> source_code \<Rightarrow> (js_error + 'cfg inline_configs) \<times> source_code" where
  "applyInlineConfig commentParser sc =
     (case getInlineConfigNodes sc of
        (Inl e, sc') \<Rightarrow> (Inl e, sc')
      | (Inr nodes, sc') \<Rightarrow>
          (forEach (applyInlineConfig_callback commentParser sc') nodes
             \<lparr> ic_configs = [], ic_problems = [] \<rparr>, sc'))"

text \<open>\<open>getParent\<close>: a read of the parent cache.\<close>

definition getParent :: "source_code \<Rightarrow> node \<Rightarrow> node option" where
  "getParent sc n = parents sc (nid n)"

text \<open>
  \<open>traverse\<close>. The loop body records the parent when the event has one and pushes the
  step; the method returns an array iterator over the cache when the cache is set, and
  otherwise fills the cache and returns the array.
\<close>

definition traverse_body ::
  "traversal_step list \<times> (nat \<rightharpoonup> node) \<Rightarrow> iter_event \<Rightarrow> traversal_step list \<times> (nat \<rightharpoonup> node)" where
  "traverse_body acc ev =
     (let ps = (case ev_parent ev of
                  None \<Rightarrow> snd acc
                | Some parent \<Rightarrow> (snd acc)(nid (ev_node ev) \<mapsto> parent))
      in (fst acc @ [\<lparr> target = ev_node ev,
                       phase = (if ev_phase ev = enter then 1 else 2),
                       args = (ev_node ev, ev_parent ev) \<rparr>], ps))"

definition traverse :: "source_code \<Rightarrow> traversal_step iterable \<times> source_code" where
  "traverse sc =
     (case steps sc of
        Some cached \<Rightarrow> (IteratorObject (ArrayIterator cached 0), sc)
      | None \<Rightarrow>
          (let r = foldl traverse_body ([], parents sc) (iterator (doc (ast sc)))
           in (ArrayObject (fst r), sc\<lparr> steps := Some (fst r), parents := snd r \<rparr>)))"

text \<open>
  The token queries. A result is \<open>null\<close>, a token, or the \<open>undefined\<close> of an array read
  out of range. The two \<open>while\<close> loops skip comments; the optional chaining ends them on
  \<open>undefined\<close>. Each query first reads \<open>nodeOrToken.range[0]\<close> (\<open>range[1]\<close>), which
  raises a \<open>TypeError\<close> when the element carries no range; and \<open>getTokenAfter\<close> reads
  \<open>tokens.length\<close>, and \<open>getTokenBefore\<close> \<open>tokens[previousIndex]\<close>, which raise it when
  the AST has no token array.
\<close>

datatype token_result = Null | Undefined | Found token

fun array_read :: "token option \<Rightarrow> token_result" where
  "array_read None = Undefined"
| "array_read (Some t) = Found t"

function skip_comments_before :: "token list \<Rightarrow> nat \<Rightarrow> token option \<Rightarrow> token_result" where
  "skip_comments_before toks previousIndex tokenOrComment =
     (case tokenOrComment of
        None \<Rightarrow> Undefined
      | Some t \<Rightarrow>
          if is_comment t
          then (if previousIndex = 0 then Null
                else skip_comments_before toks (previousIndex - 1)
                       (at_index toks (previousIndex - 1)))
          else Found t)"
  by pat_completeness auto
termination
  by (relation "measure (\<lambda>(toks, previousIndex, tokenOrComment). previousIndex)") auto

definition getTokenBefore ::
  "source_code \<Rightarrow> syntax_element \<Rightarrow> bool \<Rightarrow> js_error + token_result" where
  "getTokenBefore sc nodeOrToken includeComments =
     (case range_of nodeOrToken of
        None \<Rightarrow> Inl TypeError
      | Some r \<Rightarrow>
          (case tokenStarts sc (fst r) of
             None \<Rightarrow> Inr Null
           | Some index \<Rightarrow>
               if index = 0 then Inr Null
               else (case tokens (ast sc) of
                       None \<Rightarrow> Inl TypeError
                     | Some toks \<Rightarrow>
                         if includeComments then Inr (array_read (at_index toks (index - 1)))
                         else Inr (skip_comments_before toks (index - 1)
                                     (at_index toks (index - 1))))))"

function skip_comments_after :: "token list \<Rightarrow> nat \<Rightarrow> token option \<Rightarrow> token_result" where
  "skip_comments_after toks nextIndex tokenOrComment =
     (case tokenOrComment of
        None \<Rightarrow> Undefined
      | Some t \<Rightarrow>
          if is_comment t
          then (if Suc nextIndex \<ge> length toks then Null
                else skip_comments_after toks (Suc nextIndex) (at_index toks (Suc nextIndex)))
          else Found t)"
  by pat_completeness auto
termination
  by (relation "measure (\<lambda>(toks, nextIndex, tokenOrComment). length toks - nextIndex)") auto

definition getTokenAfter ::
  "source_code \<Rightarrow> syntax_element \<Rightarrow> bool \<Rightarrow> js_error + token_result" where
  "getTokenAfter sc nodeOrToken includeComments =
     (case range_of nodeOrToken of
        None \<Rightarrow> Inl TypeError
      | Some r \<Rightarrow>
          (case tokenEnds sc (snd r) of
             None \<Rightarrow> Inr Null
           | Some index \<Rightarrow>
               (case tokens (ast sc) of
                  None \<Rightarrow> Inl TypeError
                | Some toks \<Rightarrow>
                    if Suc index \<ge> length toks then Inr Null
                    else if includeComments then Inr (array_read (at_index toks (Suc index)))
                    else Inr (skip_comments_after toks (Suc index)
                                (at_index toks (Suc index))))))"

text \<open>
  The calls of the public interface, and the instance after a call and after a sequence
  of calls. The two token queries and \<open>getParent\<close> assign nothing.
\<close>

datatype operation =
    Traverse
  | GetParent node
  | GetInlineConfigNodes
  | GetDisableDirectives
  | ApplyInlineConfig
  | GetTokenBefore syntax_element bool
  | GetTokenAfter syntax_element bool

fun after_call :: "'cfg comment_parser \<Rightarrow> source_code \<Rightarrow> operation \<Rightarrow> source_code" where
  "after_call commentParser sc Traverse = snd (traverse sc)"
| "after_call commentParser sc (GetParent n) = sc"
| "after_call commentParser sc GetInlineConfigNodes = snd (getInlineConfigNodes sc)"
| "after_call commentParser sc GetDisableDirectives = snd (getDisableDirectives commentParser sc)"
| "after_call commentParser sc ApplyInlineConfig = snd (applyInlineConfig commentParser sc)"
| "after_call commentParser sc (GetTokenBefore e includeComments) = sc"
| "after_call commentParser sc (GetTokenAfter e includeComments) = sc"

definition after_calls ::
  "'cfg comment_parser \<Rightarrow> source_code \<Rightarrow> operation list \<Rightarrow> source_code" where
  "after_calls commentParser sc ops = foldl (after_call commentParser) sc ops"

section \<open>Example documents\<close>

text \<open>A token array whose first two tokens have the same start and end offsets.\<close>

definition zero_loc :: location where
  "zero_loc = \<lparr> loc_start = \<lparr> line = 1, column = 1 \<rparr>, loc_end = \<lparr> line = 1, column = 1 \<rparr> \<rparr>"

definition shared_tokens :: "token list" where
  "shared_tokens =
     [\<lparr> tok_type = js ''String'', tok_range = (0, 3), tok_loc = zero_loc \<rparr>,
      \<lparr> tok_type = js ''Number'', tok_range = (0, 3), tok_loc = zero_loc \<rparr>,
      \<lparr> tok_type = js ''Number'', tok_range = (4, 5), tok_loc = zero_loc \<rparr>]"

definition shared_document :: document_node where
  "shared_document =
     \<lparr> doc = Node 0 (js ''Document'') (Some (0, 5)) zero_loc [], tokens = Some shared_tokens \<rparr>"

text \<open>
  A JSONC document of three lines with five comments among its tokens: a rule
  configuration, a one-line and a two-line \<open>eslint-disable-line\<close>, a rule configuration
  that does not parse, and a plain comment.
\<close>

definition example_text :: jsstring where
  "example_text =
     js ''/* eslint a: 2 */ [1, // eslint-disable-line b -- why\<newline>/* eslint-disable-line c\<newline>*/ 2] /* eslint x: */ // note''"

definition mk_loc :: "nat \<Rightarrow> nat \<Rightarrow> nat \<Rightarrow> nat \<Rightarrow> location" where
  "mk_loc l1 c1 l2 c2 =
     \<lparr> loc_start = \<lparr> line = l1, column = c1 \<rparr>, loc_end = \<lparr> line = l2, column = c2 \<rparr> \<rparr>"

definition mk_token :: "string \<Rightarrow> nat \<times> nat \<Rightarrow> location \<Rightarrow> token" where
  "mk_token ty r l = \<lparr> tok_type = js ty, tok_range = r, tok_loc = l \<rparr>"

definition config_comment :: token where
  "config_comment = mk_token ''BlockComment'' (0, 17) (mk_loc 1 1 1 18)"

definition one_line_comment :: token where
  "one_line_comment = mk_token ''LineComment'' (22, 53) (mk_loc 1 23 1 54)"

definition two_line_comment :: token where
  "two_line_comment = mk_token ''BlockComment'' (54, 81) (mk_loc 2 1 3 3)"

definition bad_config_comment :: token where
  "bad_config_comment = mk_token ''BlockComment'' (85, 100) (mk_loc 3 7 3 22)"

definition plain_comment :: token where
  "plain_comment = mk_token ''LineComment'' (101, 108) (mk_loc 3 23 3 30)"

definition example_tokens :: "token list" where
  "example_tokens =
     [config_comment,
      mk_token ''LBracket'' (18, 19) (mk_loc 1 19 1 20),
      mk_token ''Number'' (19, 20) (mk_loc 1 20 1 21),
      mk_token ''Comma'' (20, 21) (mk_loc 1 21 1 22),
      one_line_comment,
      two_line_comment,
      mk_token ''Number'' (82, 83) (mk_loc 3 4 3 5),
      mk_token ''RBracket'' (83, 84) (mk_loc 3 5 3 6),
      bad_config_comment,
      plain_comment]"

definition number_one :: node where
  "number_one = Node 3 (js ''Number'') (Some (19, 20)) (mk_loc 1 20 1 21) []"

definition number_two :: node where
  "number_two = Node 5 (js ''Number'') (Some (82, 83)) (mk_loc 3 4 3 5) []"

definition element_one :: node where
  "element_one = Node 2 (js ''Element'') None (mk_loc 1 20 1 21) [number_one]"

definition element_two :: node where
  "element_two = Node 4 (js ''Element'') None (mk_loc 3 4 3 5) [number_two]"

definition array_node :: node where
  "array_node = Node 1 (js ''Array'') (Some (18, 84)) (mk_loc 1 19 3 6) [element_one, element_two]"

definition document_root :: node where
  "document_root = Node 0 (js ''Document'') (Some (0, 84)) (mk_loc 1 1 3 6) [array_node]"

definition example_document :: document_node where
  "example_document = \<lparr> doc = document_root, tokens = Some example_tokens \<rparr>"

definition tokenless_document :: document_node where
  "tokenless_document = \<lparr> doc = document_root, tokens = None \<rparr>"

text \<open>
  A small comment parser to run the examples with: the label is the first word of the
  comment, the value what follows it up to a justification introduced by \<open>--\<close>; the
  rule configuration \<open>a: 2\<close> parses and no other does.
\<close>

fun before_dashes :: "jsstring \<Rightarrow> jsstring" where
  "before_dashes [] = []"
| "before_dashes (c # cs) =
     (if startsWith (c # cs) (js '' -- '') then [] else c # before_dashes cs)"

fun after_dashes :: "jsstring \<Rightarrow> jsstring option" where
  "after_dashes [] = None"
| "after_dashes (c # cs) =
     (if startsWith (c # cs) (js '' -- '') then Some (drop 4 (c # cs)) else after_dashes cs)"

definition trim :: "jsstring \<Rightarrow> jsstring" where
  "trim s = rev (dropWhile is_space (rev (dropWhile is_space s)))"

definition example_parseDirective :: "jsstring \<Rightarrow> directive_comment option" where
  "example_parseDirective s =
     (let body = trim (before_dashes s);
          word = takeWhile (\<lambda>c. \<not> is_space c) body
      in if word = [] then None
         else Some \<lparr> label = word,
                     dc_value = trim (drop (length word) body),
                     justification = map_option trim (after_dashes s) \<rparr>)"

definition example_parseJSONLikeConfig :: "jsstring \<Rightarrow> (jsstring \<times> nat) list parse_result" where
  "example_parseJSONLikeConfig s =
     (if s = js ''a: 2'' then ParseOk [(js ''a'', 2)]
      else ParseFailed (js ''Failed to parse JSON from '' @ s))"

definition example_parser :: "(jsstring \<times> nat) list comment_parser" where
  "example_parser =
     \<lparr> parseDirective = example_parseDirective,
       parseJSONLikeConfig = example_parseJSONLikeConfig \<rparr>"

definition example_model :: source_code where
  "example_model = JSONSourceCode example_text example_document"

definition example_inline_comments :: "token list" where
  "example_inline_comments =
     [config_comment, one_line_comment, two_line_comment, bad_config_comment]"

definition example_cached :: source_code where
  "example_cached = example_model\<lparr> inlineConfigComments := Some example_inline_comments \<rparr>"

section \<open>Auxiliary notions\<close>

text \<open>
  Both extraction callbacks only append to their two result lists. \<open>dd_append\<close> and
  \<open>ic_append\<close> put the results of a later run behind those of an earlier one.
\<close>

definition dd_empty :: disable_directives where
  "dd_empty = \<lparr> dd_problems = [], dd_directives = [] \<rparr>"

definition dd_append :: "disable_directives \<Rightarrow> disable_directives \<Rightarrow> disable_directives" where
  "dd_append r s =
     \<lparr> dd_problems = dd_problems r @ dd_problems s,
       dd_directives = dd_directives r @ dd_directives s \<rparr>"

definition ic_empty :: "'cfg inline_configs" where
  "ic_empty = \<lparr> ic_configs = [], ic_problems = [] \<rparr>"

definition ic_append :: "'cfg inline_configs \<Rightarrow> 'cfg inline_configs \<Rightarrow> 'cfg inline_configs" where
  "ic_append r s =
     \<lparr> ic_configs = ic_configs r @ ic_configs s,
       ic_problems = ic_problems r @ ic_problems s \<rparr>"

text \<open>
  The nodes of a tree in the order in which they are entered, the nodes below a node, and
  the identities of the nodes of a tree. In an AST every node is an object of its own:
  the identities are distinct.
\<close>

fun subnodes :: "node \<Rightarrow> node list" where
  "subnodes (Node i ty r l cs) = Node i ty r l cs # concat (map subnodes cs)"

definition descendants :: "node \<Rightarrow> node list" where
  "descendants n = concat (map subnodes (children n))"

definition node_ids :: "node \<Rightarrow> nat list" where
  "node_ids n = map nid (subnodes n)"

text \<open>The step and the parent entry that one event of the iterator gives.\<close>

definition step_of :: "iter_event \<Rightarrow> traversal_step" where
  "step_of ev =
     \<lparr> target = ev_node ev, phase = (if ev_phase ev = enter then 1 else 2),
       args = (ev_node ev, ev_parent ev) \<rparr>"

definition record_parent :: "(nat \<rightharpoonup> node) \<Rightarrow> iter_event \<Rightarrow> (nat \<rightharpoonup> node)" where
  "record_parent ps ev =
     (case ev_parent ev of None \<Rightarrow> ps | Some parent \<Rightarrow> ps(nid (ev_node ev) \<mapsto> parent))"

text \<open>
  An object that can be iterated again from its start: a second \<open>for ... of\<close> loop over
  it yields what the first did.
\<close>

definition restartable :: "'a iterable \<Rightarrow> bool" where
  "restartable r = (fst (for_of (snd (for_of r))) = fst (for_of r))"

text \<open>
  An event and a step are told apart by the identity of their node and their phase;
  \<open>targets s m\<close> says that the target of the step \<open>s\<close> is the node \<open>m\<close> itself.
\<close>

definition event_key :: "iter_event \<Rightarrow> nat \<times> iter_phase" where
  "event_key ev = (nid (ev_node ev), ev_phase ev)"

definition targets :: "traversal_step \<Rightarrow> node \<Rightarrow> bool" where
  "targets s m = (nid (target s) = nid m)"

text \<open>The steps that a call of \<open>traverse\<close> yields when its result is iterated.\<close>

definition steps_of :: "source_code \<Rightarrow> traversal_step list" where
  "steps_of sc = fst (for_of (fst (traverse sc)))"

section \<open>Evaluation of the model on concrete inputs\<close>

text \<open>
  The defining equations of the model and of the examples, for the simplifier to run the
  model on a concrete document.
\<close>

lemmas model_eval =
  js_def endsWith_def slice_from_def slice_def slice_to_end_minus_def at_index_def
  is_comment_def processTokens_body_def processTokens_def JSONSourceCode_def getText_def
  getCommentValue_def is_space_def startsWith_def space_or_end_def INLINE_CONFIG_words_def
  INLINE_CONFIG_test_def getInlineConfigNodes_def directive_labels_def
  getDisableDirectives_callback_def getDisableDirectives_def applyInlineConfig_callback_def
  applyInlineConfig_def getParent_def traverse_body_def traverse_def iterator_def
  getTokenBefore_def getTokenAfter_def Let_def

lemmas example_eval =
  zero_loc_def shared_tokens_def shared_document_def example_text_def mk_loc_def mk_token_def
  config_comment_def one_line_comment_def two_line_comment_def bad_config_comment_def
  plain_comment_def example_tokens_def number_one_def number_two_def element_one_def
  element_two_def array_node_def document_root_def example_document_def
  tokenless_document_def trim_def example_parseDirective_def example_parseJSONLikeConfig_def
  example_parser_def example_model_def example_inline_comments_def example_cached_def

section \<open>The boundary maps\<close>

text \<open>
  The loop leaves the entry of an offset alone that no remaining token has, and the last
  token with an offset decides its entry.
\<close>

lemma loop_starts_absent:
  "\<forall>t\<in>set ts. fst (tok_range t) \<noteq> off \<Longrightarrow>
     p_starts (processTokens_loop i ts acc) off = p_starts acc off"
  by (induction ts arbitrary: i acc) (simp_all add: processTokens_body_def)

lemma loop_ends_absent:
  "\<forall>t\<in>set ts. snd (tok_range t) \<noteq> off \<Longrightarrow>
     p_ends (processTokens_loop i ts acc) off = p_ends acc off"
  by (induction ts arbitrary: i acc) (simp_all add: processTokens_body_def)

lemma loop_starts_split:
  "\<forall>u\<in>set post. fst (tok_range u) \<noteq> fst (tok_range t) \<Longrightarrow>
   p_starts (processTokens_loop i (pre @ t # post) acc) (fst (tok_range t))
     = Some (i + length pre)"
proof (induction pre arbitrary: i acc)
  case Nil
  then show ?case
    by (simp add: loop_starts_absent processTokens_body_def)
next
  case (Cons a pre)
  from Cons.IH[OF Cons.prems, of "Suc i" "processTokens_body i a acc"]
  show ?case by simp
qed

lemma loop_ends_split:
  "\<forall>u\<in>set post. snd (tok_range u) \<noteq> snd (tok_range t) \<Longrightarrow>
   p_ends (processTokens_loop i (pre @ t # post) acc) (snd (tok_range t))
     = Some (i + length pre)"
proof (induction pre arbitrary: i acc)
  case Nil
  then show ?case
    by (simp add: loop_ends_absent processTokens_body_def)
next
  case (Cons a pre)
  from Cons.IH[OF Cons.prems, of "Suc i" "processTokens_body i a acc"]
  show ?case by simp
qed

lemma later_tokens_drop:
  assumes "j < length toks"
    and "\<forall>k. j < k \<and> k < length toks \<longrightarrow> f (toks ! k) \<noteq> v"
  shows "\<forall>u\<in>set (drop (Suc j) toks). f u \<noteq> v"
proof
  fix u assume "u \<in> set (drop (Suc j) toks)"
  then obtain m where m: "m < length (drop (Suc j) toks)" "drop (Suc j) toks ! m = u"
    unfolding in_set_conv_nth by blast
  from m(1) have lt: "Suc j + m < length toks" by simp
  then have "drop (Suc j) toks ! m = toks ! (Suc j + m)" by simp
  moreover from assms(2) lt have "f (toks ! (Suc j + m)) \<noteq> v" by simp
  ultimately show "f u \<noteq> v" using m(2) by simp
qed

lemma processTokens_starts_last:
  assumes "j < length toks"
    and "\<forall>k. j < k \<and> k < length toks \<longrightarrow> fst (tok_range (toks ! k)) \<noteq> fst (tok_range (toks ! j))"
  shows "p_starts (processTokens toks) (fst (tok_range (toks ! j))) = Some j"
proof -
  have split: "toks = take j toks @ toks ! j # drop (Suc j) toks"
    using assms(1) by (rule id_take_nth_drop)
  have post: "\<forall>u\<in>set (drop (Suc j) toks). fst (tok_range u) \<noteq> fst (tok_range (toks ! j))"
    using assms by (rule later_tokens_drop)
  have "p_starts (processTokens_loop 0 (take j toks @ toks ! j # drop (Suc j) toks)
            \<lparr> p_comments = [], p_starts = Map.empty, p_ends = Map.empty \<rparr>)
          (fst (tok_range (toks ! j))) = Some (0 + length (take j toks))"
    using post by (rule loop_starts_split)
  with split assms(1) show ?thesis
    unfolding processTokens_def by simp
qed

lemma processTokens_ends_last:
  assumes "j < length toks"
    and "\<forall>k. j < k \<and> k < length toks \<longrightarrow> snd (tok_range (toks ! k)) \<noteq> snd (tok_range (toks ! j))"
  shows "p_ends (processTokens toks) (snd (tok_range (toks ! j))) = Some j"
proof -
  have split: "toks = take j toks @ toks ! j # drop (Suc j) toks"
    using assms(1) by (rule id_take_nth_drop)
  have post: "\<forall>u\<in>set (drop (Suc j) toks). snd (tok_range u) \<noteq> snd (tok_range (toks ! j))"
    using assms by (rule later_tokens_drop)
  have "p_ends (processTokens_loop 0 (take j toks @ toks ! j # drop (Suc j) toks)
            \<lparr> p_comments = [], p_starts = Map.empty, p_ends = Map.empty \<rparr>)
          (snd (tok_range (toks ! j))) = Some (0 + length (take j toks))"
    using post by (rule loop_ends_split)
  with split assms(1) show ?thesis
    unfolding processTokens_def by simp
qed

text \<open>
  C3. For a token array processed at construction and a token \<open>t\<close> at index \<open>j\<close>: when
  no later token of the array has the start offset of \<open>t\<close>, the start-offset map sends
  that offset to \<open>j\<close>, and likewise for the end offset and the end-offset map; when an
  earlier token shares the start (end) offset of \<open>t\<close> and no later one does, the entry
  for the shared offset is \<open>j\<close>, the index of the later token.
\<close>

theorem boundary_maps_later_token_wins:
  assumes "tokens a = Some toks" and "j < length toks"
  shows "((\<forall>k. j < k \<and> k < length toks \<longrightarrow>
              fst (tok_range (toks ! k)) \<noteq> fst (tok_range (toks ! j)))
           \<longrightarrow> tokenStarts (JSONSourceCode txt a) (fst (tok_range (toks ! j))) = Some j)
       \<and> ((\<forall>k. j < k \<and> k < length toks \<longrightarrow>
              snd (tok_range (toks ! k)) \<noteq> snd (tok_range (toks ! j)))
           \<longrightarrow> tokenEnds (JSONSourceCode txt a) (snd (tok_range (toks ! j))) = Some j)
       \<and> (\<forall>i. i < j \<and> fst (tok_range (toks ! i)) = fst (tok_range (toks ! j))
              \<and> (\<forall>k. j < k \<and> k < length toks \<longrightarrow>
                    fst (tok_range (toks ! k)) \<noteq> fst (tok_range (toks ! j)))
           \<longrightarrow> tokenStarts (JSONSourceCode txt a) (fst (tok_range (toks ! i))) = Some j)
       \<and> (\<forall>i. i < j \<and> snd (tok_range (toks ! i)) = snd (tok_range (toks ! j))
              \<and> (\<forall>k. j < k \<and> k < length toks \<longrightarrow>
                    snd (tok_range (toks ! k)) \<noteq> snd (tok_range (toks ! j)))
           \<longrightarrow> tokenEnds (JSONSourceCode txt a) (snd (tok_range (toks ! i))) = Some j)"
proof -
  have s: "tokenStarts (JSONSourceCode txt a) = p_starts (processTokens toks)"
    using assms(1) by (simp add: JSONSourceCode_def Let_def)
  have e: "tokenEnds (JSONSourceCode txt a) = p_ends (processTokens toks)"
    using assms(1) by (simp add: JSONSourceCode_def Let_def)
  show ?thesis
    unfolding s e
    using processTokens_starts_last[OF assms(2)] processTokens_ends_last[OF assms(2)]
    by simp
qed

text \<open>
  The theorem at a token array whose first two tokens share both offsets: both maps hold
  the index 1 for the shared offsets.
\<close>

theorem boundary_maps_later_token_wins_witness:
  "tokens shared_document = Some shared_tokens \<and> (1::nat) < length shared_tokens
   \<and> fst (tok_range (shared_tokens ! 0)) = fst (tok_range (shared_tokens ! 1))
   \<and> tokenStarts (JSONSourceCode [] shared_document) (fst (tok_range (shared_tokens ! 1))) = Some 1
   \<and> tokenEnds (JSONSourceCode [] shared_document) (snd (tok_range (shared_tokens ! 1))) = Some 1
   \<and> tokenStarts (JSONSourceCode [] shared_document) (fst (tok_range (shared_tokens ! 0))) = Some 1
   \<and> tokenEnds (JSONSourceCode [] shared_document) (snd (tok_range (shared_tokens ! 0))) = Some 1"
proof -
  have a: "tokens shared_document = Some shared_tokens"
    by (simp add: shared_document_def)
  have b: "(1::nat) < length shared_tokens"
    by (simp add: shared_tokens_def)
  have c: "\<forall>k. 1 < k \<and> k < length shared_tokens \<longrightarrow>
             fst (tok_range (shared_tokens ! k)) \<noteq> fst (tok_range (shared_tokens ! 1))"
  proof (intro allI impI)
    fix k assume "1 < k \<and> k < length shared_tokens"
    then have "k = 2" by (simp add: shared_tokens_def)
    then show "fst (tok_range (shared_tokens ! k)) \<noteq> fst (tok_range (shared_tokens ! 1))"
      by (simp add: shared_tokens_def)
  qed
  have d: "\<forall>k. 1 < k \<and> k < length shared_tokens \<longrightarrow>
             snd (tok_range (shared_tokens ! k)) \<noteq> snd (tok_range (shared_tokens ! 1))"
  proof (intro allI impI)
    fix k assume "1 < k \<and> k < length shared_tokens"
    then have "k = 2" by (simp add: shared_tokens_def)
    then show "snd (tok_range (shared_tokens ! k)) \<noteq> snd (tok_range (shared_tokens ! 1))"
      by (simp add: shared_tokens_def)
  qed
  have f: "fst (tok_range (shared_tokens ! 0)) = fst (tok_range (shared_tokens ! 1))"
    and g: "snd (tok_range (shared_tokens ! 0)) = snd (tok_range (shared_tokens ! 1))"
    by (simp_all add: shared_tokens_def)
  from boundary_maps_later_token_wins[OF a b, of "[]"] c d f g a b
  show ?thesis by simp
qed

section \<open>The token queries\<close>

declare skip_comments_before.simps [simp del]

declare skip_comments_after.simps [simp del]

lemma loop_starts_range:
  "p_starts (processTokens_loop i ts acc) off = Some k \<Longrightarrow>
     p_starts acc off = Some k \<or> (i \<le> k \<and> k < i + length ts)"
proof (induction ts arbitrary: i acc)
  case Nil
  then show ?case by simp
next
  case (Cons t ts)
  from Cons.IH[of "Suc i" "processTokens_body i t acc"] Cons.prems
  have "p_starts (processTokens_body i t acc) off = Some k \<or> (Suc i \<le> k \<and> k < Suc i + length ts)"
    by simp
  then show ?case
    by (auto simp: processTokens_body_def split: if_splits)
qed

lemma loop_ends_range:
  "p_ends (processTokens_loop i ts acc) off = Some k \<Longrightarrow>
     p_ends acc off = Some k \<or> (i \<le> k \<and> k < i + length ts)"
proof (induction ts arbitrary: i acc)
  case Nil
  then show ?case by simp
next
  case (Cons t ts)
  from Cons.IH[of "Suc i" "processTokens_body i t acc"] Cons.prems
  have "p_ends (processTokens_body i t acc) off = Some k \<or> (Suc i \<le> k \<and> k < Suc i + length ts)"
    by simp
  then show ?case
    by (auto simp: processTokens_body_def split: if_splits)
qed

lemma tokenStarts_in_range:
  "tokens a = Some toks \<Longrightarrow> tokenStarts (JSONSourceCode src a) off = Some i \<Longrightarrow> i < length toks"
proof -
  assume t: "tokens a = Some toks" and s: "tokenStarts (JSONSourceCode src a) off = Some i"
  from t s have "p_starts (processTokens_loop 0 toks
      \<lparr> p_comments = [], p_starts = Map.empty, p_ends = Map.empty \<rparr>) off = Some i"
    by (simp add: JSONSourceCode_def processTokens_def Let_def)
  from loop_starts_range[OF this] show ?thesis by simp
qed

lemma tokenEnds_in_range:
  "tokens a = Some toks \<Longrightarrow> tokenEnds (JSONSourceCode src a) off = Some i \<Longrightarrow> i < length toks"
proof -
  assume t: "tokens a = Some toks" and s: "tokenEnds (JSONSourceCode src a) off = Some i"
  from t s have "p_ends (processTokens_loop 0 toks
      \<lparr> p_comments = [], p_starts = Map.empty, p_ends = Map.empty \<rparr>) off = Some i"
    by (simp add: JSONSourceCode_def processTokens_def Let_def)
  from loop_ends_range[OF this] show ?thesis by simp
qed

lemma no_tokens_no_boundaries:
  "tokens a = None \<Longrightarrow> tokenStarts (JSONSourceCode src a) = Map.empty
     \<and> tokenEnds (JSONSourceCode src a) = Map.empty \<and> comments (JSONSourceCode src a) = []"
  by (simp add: JSONSourceCode_def processTokens_def Let_def)

lemma constructed_ast: "ast (JSONSourceCode src a) = a"
  by (simp add: JSONSourceCode_def Let_def)



lemma skip_before_in_range:
  "p < length toks \<Longrightarrow>
     skip_comments_before toks p (at_index toks p) \<noteq> Undefined
     \<and> (skip_comments_before toks p (at_index toks p) = Null \<longleftrightarrow> (\<forall>k\<le>p. is_comment (toks ! k)))"
proof (induction p)
  case 0
  then show ?case
    by (subst (1 2) skip_comments_before.simps) (simp add: at_index_def)
next
  case (Suc p)
  then have ih: "skip_comments_before toks p (at_index toks p) \<noteq> Undefined"
      "skip_comments_before toks p (at_index toks p) = Null \<longleftrightarrow> (\<forall>k\<le>p. is_comment (toks ! k))"
    by simp_all
  have unfold: "skip_comments_before toks (Suc p) (at_index toks (Suc p)) =
      (if is_comment (toks ! Suc p) then skip_comments_before toks p (at_index toks p)
       else Found (toks ! Suc p))"
    using Suc.prems by (subst skip_comments_before.simps) (simp add: at_index_def)
  show ?case
    unfolding unfold using ih by (auto simp: le_Suc_eq)
qed

lemma skip_after_in_range:
  "p < length toks \<Longrightarrow>
     skip_comments_after toks p (at_index toks p) \<noteq> Undefined
     \<and> (skip_comments_after toks p (at_index toks p) = Null
          \<longleftrightarrow> (\<forall>k. p \<le> k \<and> k < length toks \<longrightarrow> is_comment (toks ! k)))"
proof (induction "length toks - p" arbitrary: p)
  case 0
  then show ?case by simp
next
  case (Suc d)
  have unfold: "skip_comments_after toks p (at_index toks p) =
      (if is_comment (toks ! p)
       then (if Suc p \<ge> length toks then Null
             else skip_comments_after toks (Suc p) (at_index toks (Suc p)))
       else Found (toks ! p))"
    using Suc.prems by (subst skip_comments_after.simps) (simp add: at_index_def)
  show ?case
  proof (cases "Suc p < length toks")
    case True
    with Suc.hyps have "d = length toks - Suc p" by simp
    from Suc.hyps(1)[OF this True]
    have ih: "skip_comments_after toks (Suc p) (at_index toks (Suc p)) \<noteq> Undefined"
      "skip_comments_after toks (Suc p) (at_index toks (Suc p)) = Null
         \<longleftrightarrow> (\<forall>k. Suc p \<le> k \<and> k < length toks \<longrightarrow> is_comment (toks ! k))"
      by simp_all
    have split: "(\<forall>k. p \<le> k \<and> k < length toks \<longrightarrow> is_comment (toks ! k))
        \<longleftrightarrow> is_comment (toks ! p) \<and> (\<forall>k. Suc p \<le> k \<and> k < length toks \<longrightarrow> is_comment (toks ! k))"
      using Suc.prems by (metis Suc_leD Suc_le_eq le_eq_less_or_eq)
    show ?thesis unfolding unfold split using ih True by auto
  next
    case False
    with Suc.prems have "\<And>k. p \<le> k \<and> k < length toks \<longleftrightarrow> k = p" by auto
    then show ?thesis unfolding unfold using False by auto
  qed
qed

lemma getTokenBefore_no_range:
  "range_of e = None \<Longrightarrow> getTokenBefore sc e inc = Inl TypeError"
  by (simp add: getTokenBefore_def)

lemma getTokenAfter_no_range:
  "range_of e = None \<Longrightarrow> getTokenAfter sc e inc = Inl TypeError"
  by (simp add: getTokenAfter_def)

lemma getTokenBefore_constructed:
  assumes "tokens a = Some toks"
    and "range_of e = Some r"
    and "tokenStarts (JSONSourceCode src a) (fst r) = Some i"
  shows "getTokenBefore (JSONSourceCode src a) e inc =
           (if i = 0 then Inr Null
            else if inc then Inr (Found (toks ! (i - 1)))
            else Inr (skip_comments_before toks (i - 1) (at_index toks (i - 1))))"
proof -
  have "i < length toks" using assms(1,3) by (rule tokenStarts_in_range)
  then have "i \<noteq> 0 \<Longrightarrow> at_index toks (i - 1) = Some (toks ! (i - 1))"
    by (simp add: at_index_def)
  then show ?thesis
    using assms by (simp add: getTokenBefore_def constructed_ast)
qed

lemma getTokenAfter_constructed:
  assumes "tokens a = Some toks"
    and "range_of e = Some r"
    and "tokenEnds (JSONSourceCode src a) (snd r) = Some i"
  shows "getTokenAfter (JSONSourceCode src a) e inc =
           (if Suc i \<ge> length toks then Inr Null
            else if inc then Inr (Found (toks ! Suc i))
            else Inr (skip_comments_after toks (Suc i) (at_index toks (Suc i))))"
  using assms by (simp add: getTokenAfter_def constructed_ast at_index_def)

lemma getTokenBefore_unknown:
  "range_of e = Some r \<Longrightarrow> tokenStarts sc (fst r) = None \<Longrightarrow> getTokenBefore sc e inc = Inr Null"
  by (simp add: getTokenBefore_def)

lemma getTokenAfter_unknown:
  "range_of e = Some r \<Longrightarrow> tokenEnds sc (snd r) = None \<Longrightarrow> getTokenAfter sc e inc = Inr Null"
  by (simp add: getTokenAfter_def)

lemma getTokenBefore_no_tokens:
  "tokens a = None \<Longrightarrow> range_of e = Some r \<Longrightarrow>
     getTokenBefore (JSONSourceCode src a) e inc = Inr Null"
  by (simp add: getTokenBefore_unknown no_tokens_no_boundaries)

lemma getTokenAfter_no_tokens:
  "tokens a = None \<Longrightarrow> range_of e = Some r \<Longrightarrow>
     getTokenAfter (JSONSourceCode src a) e inc = Inr Null"
  by (simp add: getTokenAfter_unknown no_tokens_no_boundaries)



lemma getTokenBefore_null_iff:
  assumes "tokens a = Some toks"
    and "range_of e = Some r"
    and "tokenStarts (JSONSourceCode src a) (fst r) = Some i"
  shows "(\<exists>res. getTokenBefore (JSONSourceCode src a) e inc = Inr res \<and> res \<noteq> Undefined)
       \<and> (getTokenBefore (JSONSourceCode src a) e inc = Inr Null
            \<longleftrightarrow> i = 0 \<or> (\<not> inc \<and> (\<forall>k<i. is_comment (toks ! k))))"
proof (cases "i = 0")
  case True
  then show ?thesis by (simp add: getTokenBefore_constructed[OF assms])
next
  case False
  then obtain p where i: "i = Suc p" by (cases i) auto
  have "i < length toks" using assms(1,3) by (rule tokenStarts_in_range)
  with i have p: "p < length toks" by simp
  have all: "(\<forall>k<Suc p. is_comment (toks ! k)) \<longleftrightarrow> (\<forall>k\<le>p. is_comment (toks ! k))"
    by (simp add: less_Suc_eq_le)
  have eq: "getTokenBefore (JSONSourceCode src a) e inc =
      (if inc then Inr (Found (toks ! p))
       else Inr (skip_comments_before toks p (at_index toks p)))"
    unfolding getTokenBefore_constructed[OF assms] i by simp
  show ?thesis
  proof (cases inc)
    case True
    then show ?thesis unfolding eq i by simp
  next
    case False
    then show ?thesis unfolding eq i all using skip_before_in_range[OF p] by simp
  qed
qed

lemma getTokenAfter_null_iff:
  assumes "tokens a = Some toks"
    and "range_of e = Some r"
    and "tokenEnds (JSONSourceCode src a) (snd r) = Some i"
  shows "(\<exists>res. getTokenAfter (JSONSourceCode src a) e inc = Inr res \<and> res \<noteq> Undefined)
       \<and> (getTokenAfter (JSONSourceCode src a) e inc = Inr Null
            \<longleftrightarrow> Suc i = length toks
                \<or> (\<not> inc \<and> (\<forall>k. i < k \<and> k < length toks \<longrightarrow> is_comment (toks ! k))))"
proof (cases "Suc i < length toks")
  case False
  have "i < length toks" using assms(1,3) by (rule tokenEnds_in_range)
  with False have "Suc i = length toks" by simp
  then show ?thesis by (simp add: getTokenAfter_constructed[OF assms])
next
  case True
  have all: "(\<forall>k. i < k \<and> k < length toks \<longrightarrow> is_comment (toks ! k))
      \<longleftrightarrow> (\<forall>k. Suc i \<le> k \<and> k < length toks \<longrightarrow> is_comment (toks ! k))"
    by (simp add: Suc_le_eq)
  have ne: "Suc i \<noteq> length toks" using True by simp
  have eq: "getTokenAfter (JSONSourceCode src a) e inc =
      (if inc then Inr (Found (toks ! Suc i))
       else Inr (skip_comments_after toks (Suc i) (at_index toks (Suc i))))"
    unfolding getTokenAfter_constructed[OF assms] using True by simp
  show ?thesis
  proof (cases inc)
    case True
    then show ?thesis unfolding eq using ne by simp
  next
    case False
    then show ?thesis unfolding eq all using skip_after_in_range[OF True] ne by simp
  qed
qed

lemma example_model_tokens: "tokens example_document = Some example_tokens"
  by (simp add: example_document_def)

lemma getInlineConfigNodes_no_comments:
  "comments sc = [] \<Longrightarrow> inlineConfigComments sc = None \<Longrightarrow>
     getInlineConfigNodes sc = (Inr [], sc\<lparr> inlineConfigComments := Some [] \<rparr>)"
  by (simp add: getInlineConfigNodes_def)

lemma constructed_cache_empty:
  "inlineConfigComments (JSONSourceCode src a) = None \<and> steps (JSONSourceCode src a) = None
     \<and> parents (JSONSourceCode src a) = Map.empty"
  by (simp add: JSONSourceCode_def Let_def)

lemma getTokenBefore_of_token:
  assumes "tokens a = Some toks" and "j < length toks"
    and "\<forall>k. j < k \<and> k < length toks \<longrightarrow>
           fst (tok_range (toks ! k)) \<noteq> fst (tok_range (toks ! j))"
  shows "getTokenBefore (JSONSourceCode src a) (AToken (toks ! j)) inc = Inr Null
           \<longleftrightarrow> j = 0 \<or> (\<not> inc \<and> (\<forall>k<j. is_comment (toks ! k)))"
proof -
  have r: "range_of (AToken (toks ! j)) = Some (tok_range (toks ! j))" by simp
  have "tokenStarts (JSONSourceCode src a) (fst (tok_range (toks ! j))) = Some j"
    using assms(1) processTokens_starts_last[OF assms(2,3)]
    by (simp add: JSONSourceCode_def Let_def)
  from getTokenBefore_null_iff[OF assms(1) r this, of inc] show ?thesis by simp
qed

lemma getTokenAfter_of_token:
  assumes "tokens a = Some toks" and "j < length toks"
    and "\<forall>k. j < k \<and> k < length toks \<longrightarrow>
           snd (tok_range (toks ! k)) \<noteq> snd (tok_range (toks ! j))"
  shows "getTokenAfter (JSONSourceCode src a) (AToken (toks ! j)) inc = Inr Null
           \<longleftrightarrow> Suc j = length toks
               \<or> (\<not> inc \<and> (\<forall>k. j < k \<and> k < length toks \<longrightarrow> is_comment (toks ! k)))"
proof -
  have r: "range_of (AToken (toks ! j)) = Some (tok_range (toks ! j))" by simp
  have "tokenEnds (JSONSourceCode src a) (snd (tok_range (toks ! j))) = Some j"
    using assms(1) processTokens_ends_last[OF assms(2,3)]
    by (simp add: JSONSourceCode_def Let_def)
  from getTokenAfter_null_iff[OF assms(1) r this, of inc] show ?thesis by simp
qed



text \<open>
  The token queries can throw: an element that carries no range makes both of them raise
  a \<open>TypeError\<close>. In the example document the wrapper node of the first array element
  carries none.
\<close>

theorem token_queries_throw_without_range:
  "getTokenBefore example_model (ANode element_one) False = Inl TypeError
   \<and> getTokenAfter example_model (ANode element_one) False = Inl TypeError"
  by (simp add: getTokenBefore_def getTokenAfter_def element_one_def)

text \<open>
  C8, as the code has it. For an element that carries no range both queries throw a
  \<open>TypeError\<close>, whatever the state of the model. For an element that carries a range, on
  a constructed model, neither query throws, and neither returns the \<open>undefined\<close> of an
  array read out of range. \<open>getTokenBefore\<close> returns \<open>null\<close> exactly when the start
  offset of the element is not in the start-offset map, or the token located for it is
  the first of the stream, or comments are excluded and every token before the located
  one is a comment. \<open>getTokenAfter\<close> returns \<open>null\<close> exactly when the end offset is not in
  the end-offset map, or the located token is the last of the stream, or comments are
  excluded and every token after the located one is a comment. The located token is the
  one the boundary map holds for the offset of the element; for a token of the stream
  whose offset no later token shares it is the token itself, so that for such a token
  at index \<open>j\<close> the result is \<open>null\<close> exactly when it is the first (last) token or,
  with comments excluded, all tokens before (after) it are comments.
\<close>

theorem token_queries_absence:
  "(range_of e = None \<longrightarrow>
      getTokenBefore sc e inc = Inl TypeError \<and> getTokenAfter sc e inc = Inl TypeError)
   \<and> (\<forall>r. range_of e = Some r \<longrightarrow>
        (\<exists>res. getTokenBefore (JSONSourceCode src a) e inc = Inr res \<and> res \<noteq> Undefined)
        \<and> (getTokenBefore (JSONSourceCode src a) e inc = Inr Null \<longleftrightarrow>
             tokenStarts (JSONSourceCode src a) (fst r) = None
             \<or> tokenStarts (JSONSourceCode src a) (fst r) = Some 0
             \<or> (\<not> inc \<and> (\<exists>toks i. tokens a = Some toks
                    \<and> tokenStarts (JSONSourceCode src a) (fst r) = Some i
                    \<and> (\<forall>k<i. is_comment (toks ! k)))))
        \<and> (\<exists>res. getTokenAfter (JSONSourceCode src a) e inc = Inr res \<and> res \<noteq> Undefined)
        \<and> (getTokenAfter (JSONSourceCode src a) e inc = Inr Null \<longleftrightarrow>
             tokenEnds (JSONSourceCode src a) (snd r) = None
             \<or> (\<exists>toks i. tokens a = Some toks
                    \<and> tokenEnds (JSONSourceCode src a) (snd r) = Some i
                    \<and> (Suc i = length toks
                        \<or> (\<not> inc \<and> (\<forall>k. i < k \<and> k < length toks
                                        \<longrightarrow> is_comment (toks ! k)))))))
   \<and> (\<forall>toks j. tokens a = Some toks \<and> j < length toks
          \<and> (\<forall>k. j < k \<and> k < length toks \<longrightarrow>
                 fst (tok_range (toks ! k)) \<noteq> fst (tok_range (toks ! j)))
        \<longrightarrow> (getTokenBefore (JSONSourceCode src a) (AToken (toks ! j)) inc = Inr Null
               \<longleftrightarrow> j = 0 \<or> (\<not> inc \<and> (\<forall>k<j. is_comment (toks ! k)))))
   \<and> (\<forall>toks j. tokens a = Some toks \<and> j < length toks
          \<and> (\<forall>k. j < k \<and> k < length toks \<longrightarrow>
                 snd (tok_range (toks ! k)) \<noteq> snd (tok_range (toks ! j)))
        \<longrightarrow> (getTokenAfter (JSONSourceCode src a) (AToken (toks ! j)) inc = Inr Null
               \<longleftrightarrow> Suc j = length toks
                   \<or> (\<not> inc \<and> (\<forall>k. j < k \<and> k < length toks \<longrightarrow> is_comment (toks ! k)))))"
proof -
  have none: "range_of e = None \<longrightarrow>
      getTokenBefore sc e inc = Inl TypeError \<and> getTokenAfter sc e inc = Inl TypeError"
    by (simp add: getTokenBefore_no_range getTokenAfter_no_range)
  have before: "(\<exists>res. getTokenBefore (JSONSourceCode src a) e inc = Inr res \<and> res \<noteq> Undefined)
   \<and> (getTokenBefore (JSONSourceCode src a) e inc = Inr Null \<longleftrightarrow>
        tokenStarts (JSONSourceCode src a) (fst r) = None
        \<or> tokenStarts (JSONSourceCode src a) (fst r) = Some 0
        \<or> (\<not> inc \<and> (\<exists>toks i. tokens a = Some toks
               \<and> tokenStarts (JSONSourceCode src a) (fst r) = Some i
               \<and> (\<forall>k<i. is_comment (toks ! k)))))"
    if r: "range_of e = Some r" for r
  proof (cases "tokenStarts (JSONSourceCode src a) (fst r)")
    case None
    then show ?thesis by (simp add: getTokenBefore_unknown[OF r])
  next
    case (Some i)
    then obtain toks where t: "tokens a = Some toks"
      using no_tokens_no_boundaries[of a src] by (cases "tokens a") auto
    from getTokenBefore_null_iff[OF t r Some, of inc] show ?thesis
      by (simp add: Some t)
  qed
  have after: "(\<exists>res. getTokenAfter (JSONSourceCode src a) e inc = Inr res \<and> res \<noteq> Undefined)
   \<and> (getTokenAfter (JSONSourceCode src a) e inc = Inr Null \<longleftrightarrow>
        tokenEnds (JSONSourceCode src a) (snd r) = None
        \<or> (\<exists>toks i. tokens a = Some toks
               \<and> tokenEnds (JSONSourceCode src a) (snd r) = Some i
               \<and> (Suc i = length toks
                   \<or> (\<not> inc \<and> (\<forall>k. i < k \<and> k < length toks \<longrightarrow> is_comment (toks ! k))))))"
    if r: "range_of e = Some r" for r
  proof (cases "tokenEnds (JSONSourceCode src a) (snd r)")
    case None
    then show ?thesis by (simp add: getTokenAfter_unknown[OF r])
  next
    case (Some i)
    then obtain toks where t: "tokens a = Some toks"
      using no_tokens_no_boundaries[of a src] by (cases "tokens a") auto
    from getTokenAfter_null_iff[OF t r Some, of inc] show ?thesis
      by (simp add: Some t)
  qed
  have some: "\<forall>r. range_of e = Some r \<longrightarrow>
        (\<exists>res. getTokenBefore (JSONSourceCode src a) e inc = Inr res \<and> res \<noteq> Undefined)
        \<and> (getTokenBefore (JSONSourceCode src a) e inc = Inr Null \<longleftrightarrow>
             tokenStarts (JSONSourceCode src a) (fst r) = None
             \<or> tokenStarts (JSONSourceCode src a) (fst r) = Some 0
             \<or> (\<not> inc \<and> (\<exists>toks i. tokens a = Some toks
                    \<and> tokenStarts (JSONSourceCode src a) (fst r) = Some i
                    \<and> (\<forall>k<i. is_comment (toks ! k)))))
        \<and> (\<exists>res. getTokenAfter (JSONSourceCode src a) e inc = Inr res \<and> res \<noteq> Undefined)
        \<and> (getTokenAfter (JSONSourceCode src a) e inc = Inr Null \<longleftrightarrow>
             tokenEnds (JSONSourceCode src a) (snd r) = None
             \<or> (\<exists>toks i. tokens a = Some toks
                    \<and> tokenEnds (JSONSourceCode src a) (snd r) = Some i
                    \<and> (Suc i = length toks
                        \<or> (\<not> inc \<and> (\<forall>k. i < k \<and> k < length toks
                                        \<longrightarrow> is_comment (toks ! k))))))"
  proof (intro allI impI)
    fix r assume r: "range_of e = Some r"
    from before[OF r] after[OF r]
    show "(\<exists>res. getTokenBefore (JSONSourceCode src a) e inc = Inr res \<and> res \<noteq> Undefined)
        \<and> (getTokenBefore (JSONSourceCode src a) e inc = Inr Null \<longleftrightarrow>
             tokenStarts (JSONSourceCode src a) (fst r) = None
             \<or> tokenStarts (JSONSourceCode src a) (fst r) = Some 0
             \<or> (\<not> inc \<and> (\<exists>toks i. tokens a = Some toks
                    \<and> tokenStarts (JSONSourceCode src a) (fst r) = Some i
                    \<and> (\<forall>k<i. is_comment (toks ! k)))))
        \<and> (\<exists>res. getTokenAfter (JSONSourceCode src a) e inc = Inr res \<and> res \<noteq> Undefined)
        \<and> (getTokenAfter (JSONSourceCode src a) e inc = Inr Null \<longleftrightarrow>
             tokenEnds (JSONSourceCode src a) (snd r) = None
             \<or> (\<exists>toks i. tokens a = Some toks
                    \<and> tokenEnds (JSONSourceCode src a) (snd r) = Some i
                    \<and> (Suc i = length toks
                        \<or> (\<not> inc \<and> (\<forall>k. i < k \<and> k < length toks
                                        \<longrightarrow> is_comment (toks ! k))))))"
      by (intro conjI) (elim conjE, assumption)+
  qed
  have tb: "\<forall>toks j. tokens a = Some toks \<and> j < length toks
          \<and> (\<forall>k. j < k \<and> k < length toks \<longrightarrow>
                 fst (tok_range (toks ! k)) \<noteq> fst (tok_range (toks ! j)))
        \<longrightarrow> (getTokenBefore (JSONSourceCode src a) (AToken (toks ! j)) inc = Inr Null
               \<longleftrightarrow> j = 0 \<or> (\<not> inc \<and> (\<forall>k<j. is_comment (toks ! k))))"
    using getTokenBefore_of_token[of a _ _ src inc] by blast
  have ta: "\<forall>toks j. tokens a = Some toks \<and> j < length toks
          \<and> (\<forall>k. j < k \<and> k < length toks \<longrightarrow>
                 snd (tok_range (toks ! k)) \<noteq> snd (tok_range (toks ! j)))
        \<longrightarrow> (getTokenAfter (JSONSourceCode src a) (AToken (toks ! j)) inc = Inr Null
               \<longleftrightarrow> Suc j = length toks
                   \<or> (\<not> inc \<and> (\<forall>k. j < k \<and> k < length toks \<longrightarrow> is_comment (toks ! k))))"
    using getTokenAfter_of_token[of a _ _ src inc] by blast
  from none some tb ta show ?thesis by (intro conjI)
qed

text \<open>
  In the example document only a comment stands before the array and only comments
  after it: both queries return \<open>null\<close> with comments excluded and a token with comments
  included. The wrapper node of the second array element carries no range, and both
  queries throw on it.
\<close>

theorem token_queries_absence_witness:
  "tokens example_document = Some example_tokens
   \<and> range_of (ANode array_node) = Some (18, 84)
   \<and> tokenStarts example_model 18 = Some 1
   \<and> is_comment (example_tokens ! 0)
   \<and> getTokenBefore example_model (ANode array_node) False = Inr Null
   \<and> getTokenBefore example_model (ANode array_node) True \<noteq> Inr Null
   \<and> tokenEnds example_model 84 = Some 7
   \<and> length example_tokens = 10
   \<and> is_comment (example_tokens ! 8) \<and> is_comment (example_tokens ! 9)
   \<and> getTokenAfter example_model (ANode array_node) False = Inr Null
   \<and> getTokenAfter example_model (ANode array_node) True \<noteq> Inr Null
   \<and> getTokenBefore example_model (AToken (example_tokens ! 0)) True = Inr Null
   \<and> range_of (ANode element_two) = None
   \<and> getTokenBefore example_model (ANode element_two) True = Inl TypeError
   \<and> getTokenAfter example_model (ANode element_two) True = Inl TypeError"
proof -
  note excl = token_queries_absence
    [where src = example_text and a = example_document and e = "ANode array_node"
       and inc = False, THEN conjunct2]
  note incl = token_queries_absence
    [where src = example_text and a = example_document and e = "ANode array_node"
       and inc = True, THEN conjunct2]
  note thrown = token_queries_absence
    [where sc = "JSONSourceCode example_text example_document" and e = "ANode element_two"
       and inc = True, THEN conjunct1]
  have ra: "range_of (ANode array_node) = Some (18, 84)"
    by (simp add: array_node_def)
  have re: "range_of (ANode element_two) = None"
    by (simp add: element_two_def)
  note exclr = excl[THEN conjunct1, rule_format, OF ra, simplified fst_conv snd_conv]
  note inclr = incl[THEN conjunct1, rule_format, OF ra, simplified fst_conv snd_conv]
  have s: "tokenStarts (JSONSourceCode example_text example_document) 18 = Some 1"
    by (simp add: model_eval example_eval)
  have e: "tokenEnds (JSONSourceCode example_text example_document) 84 = Some 7"
    by (simp add: model_eval example_eval)
  have c0: "is_comment (example_tokens ! 0)" by (simp add: model_eval example_eval)
  have c8: "is_comment (example_tokens ! 8)" by (simp add: model_eval example_eval)
  have c9: "is_comment (example_tokens ! 9)" by (simp add: model_eval example_eval)
  have l: "length example_tokens = 10" by (simp add: model_eval example_eval)
  have allB: "\<forall>k<1. is_comment (example_tokens ! k)" using c0 by simp
  have allA: "\<forall>k. 7 < k \<and> k < length example_tokens \<longrightarrow> is_comment (example_tokens ! k)"
  proof (intro allI impI)
    fix k assume "7 < k \<and> k < length example_tokens"
    with l have "k = 8 \<or> k = 9" by arith
    with c8 c9 show "is_comment (example_tokens ! k)" by auto
  qed
  have b0: "getTokenBefore (JSONSourceCode example_text example_document) (ANode array_node)
              False = Inr Null"
    using exclr[THEN conjunct2, THEN conjunct1] example_model_tokens s allB by blast
  have b1: "getTokenBefore (JSONSourceCode example_text example_document) (ANode array_node)
              True \<noteq> Inr Null"
    using inclr[THEN conjunct2, THEN conjunct1] s by simp
  have a0: "getTokenAfter (JSONSourceCode example_text example_document) (ANode array_node)
              False = Inr Null"
    using exclr[THEN conjunct2, THEN conjunct2, THEN conjunct2]
      example_model_tokens e allA
    by blast
  have a1: "getTokenAfter (JSONSourceCode example_text example_document) (ANode array_node)
              True \<noteq> Inr Null"
    using inclr[THEN conjunct2, THEN conjunct2, THEN conjunct2]
      example_model_tokens e l
    by simp
  have unshared: "\<forall>k. 0 < k \<and> k < length example_tokens \<longrightarrow>
      fst (tok_range (example_tokens ! k)) \<noteq> fst (tok_range (example_tokens ! 0))"
  proof (intro allI impI)
    fix k assume "0 < k \<and> k < length example_tokens"
    with l have "k \<in> {1, 2, 3, 4, 5, 6, 7, 8, 9}" by auto
    then show "fst (tok_range (example_tokens ! k)) \<noteq> fst (tok_range (example_tokens ! 0))"
      by (auto simp: example_eval)
  qed
  have first: "getTokenBefore (JSONSourceCode example_text example_document)
      (AToken (example_tokens ! 0)) True = Inr Null"
    using incl[THEN conjunct2, THEN conjunct1]
      example_model_tokens l unshared
    by simp
  have tb: "getTokenBefore (JSONSourceCode example_text example_document)
      (ANode element_two) True = Inl TypeError"
    using thrown re by simp
  have ta: "getTokenAfter (JSONSourceCode example_text example_document)
      (ANode element_two) True = Inl TypeError"
    using thrown re by simp
  show ?thesis
    unfolding example_model_def
    using example_model_tokens ra s c0 b0 b1 e l c8 c9 a0 a1 first re tb ta by (intro conjI)
qed

text \<open>
  On a model constructed from an AST without a token array the queries do not return
  \<open>null\<close> for every element: they still throw for one that carries no range.
\<close>

theorem absent_tokens_query_throws:
  "tokens tokenless_document = None
   \<and> getTokenBefore (JSONSourceCode example_text tokenless_document) (ANode element_two) True
       = Inl TypeError
   \<and> getTokenAfter (JSONSourceCode example_text tokenless_document) (ANode element_two) True
       = Inl TypeError"
  by (simp add: getTokenBefore_def getTokenAfter_def element_two_def tokenless_document_def)

text \<open>
  C10, as the code has it. For an AST without a token array the constructed model has
  no comments, \<open>getInlineConfigNodes\<close>, \<open>getDisableDirectives\<close> and \<open>applyInlineConfig\<close>
  return empty results (and cache the empty list of inline configuration comments), and
  both token queries return \<open>null\<close> for every element that carries a range and either
  setting of the option; for an element that carries no range they throw the
  \<open>TypeError\<close> they throw on every model.
\<close>

theorem absent_tokens_model:
  assumes "tokens a = None"
  shows "comments (JSONSourceCode src a) = []
     \<and> getInlineConfigNodes (JSONSourceCode src a)
         = (Inr [], (JSONSourceCode src a)\<lparr> inlineConfigComments := Some [] \<rparr>)
     \<and> getDisableDirectives commentParser (JSONSourceCode src a)
         = (Inr \<lparr> dd_problems = [], dd_directives = [] \<rparr>,
                (JSONSourceCode src a)\<lparr> inlineConfigComments := Some [] \<rparr>)
     \<and> applyInlineConfig commentParser (JSONSourceCode src a)
         = (Inr \<lparr> ic_configs = [], ic_problems = [] \<rparr>,
                (JSONSourceCode src a)\<lparr> inlineConfigComments := Some [] \<rparr>)
     \<and> (\<forall>e inc. range_of e \<noteq> None \<longrightarrow>
                  getTokenBefore (JSONSourceCode src a) e inc = Inr Null
                \<and> getTokenAfter (JSONSourceCode src a) e inc = Inr Null)
     \<and> (\<forall>e inc. range_of e = None \<longrightarrow>
                  getTokenBefore (JSONSourceCode src a) e inc = Inl TypeError
                \<and> getTokenAfter (JSONSourceCode src a) e inc = Inl TypeError)"
proof -
  have c: "comments (JSONSourceCode src a) = []"
    using assms by (simp add: no_tokens_no_boundaries)
  have n: "getInlineConfigNodes (JSONSourceCode src a)
         = (Inr [], (JSONSourceCode src a)\<lparr> inlineConfigComments := Some [] \<rparr>)"
    using c by (simp add: getInlineConfigNodes_no_comments constructed_cache_empty)
  have d: "getDisableDirectives commentParser (JSONSourceCode src a)
         = (Inr \<lparr> dd_problems = [], dd_directives = [] \<rparr>,
                (JSONSourceCode src a)\<lparr> inlineConfigComments := Some [] \<rparr>)"
    unfolding getDisableDirectives_def n by simp
  have i: "applyInlineConfig commentParser (JSONSourceCode src a)
         = (Inr \<lparr> ic_configs = [], ic_problems = [] \<rparr>,
                (JSONSourceCode src a)\<lparr> inlineConfigComments := Some [] \<rparr>)"
    unfolding applyInlineConfig_def n by simp
  have q: "\<forall>e inc. range_of e \<noteq> None \<longrightarrow>
                  getTokenBefore (JSONSourceCode src a) e inc = Inr Null
                \<and> getTokenAfter (JSONSourceCode src a) e inc = Inr Null"
    using assms by (auto simp: getTokenBefore_no_tokens getTokenAfter_no_tokens)
  have t: "\<forall>e inc. range_of e = None \<longrightarrow>
                  getTokenBefore (JSONSourceCode src a) e inc = Inl TypeError
                \<and> getTokenAfter (JSONSourceCode src a) e inc = Inl TypeError"
    by (simp add: getTokenBefore_no_range getTokenAfter_no_range)
  from c n d i q t show ?thesis by (intro conjI)
qed

text \<open>
  The theorem at the example AST with its token array removed: the queries on the array,
  which carries a range, return \<open>null\<close>.
\<close>

theorem absent_tokens_model_witness:
  "tokens tokenless_document = None
   \<and> comments (JSONSourceCode example_text tokenless_document) = []
   \<and> fst (getInlineConfigNodes (JSONSourceCode example_text tokenless_document))
       = Inr []
   \<and> fst (getDisableDirectives example_parser
         (JSONSourceCode example_text tokenless_document))
       = Inr \<lparr> dd_problems = [], dd_directives = [] \<rparr>
   \<and> fst (applyInlineConfig example_parser
         (JSONSourceCode example_text tokenless_document))
       = Inr \<lparr> ic_configs = [], ic_problems = [] \<rparr>
   \<and> range_of (ANode array_node) \<noteq> None
   \<and> getTokenBefore (JSONSourceCode example_text tokenless_document) (ANode array_node) True
       = Inr Null
   \<and> getTokenAfter (JSONSourceCode example_text tokenless_document) (ANode array_node) False
       = Inr Null
   \<and> range_of (ANode element_one) = None
   \<and> getTokenBefore (JSONSourceCode example_text tokenless_document) (ANode element_one) False
       = Inl TypeError"
proof -
  have t: "tokens tokenless_document = None"
    by (simp add: tokenless_document_def)
  have ra: "range_of (ANode array_node) \<noteq> None"
    by (simp add: array_node_def)
  have re: "range_of (ANode element_one) = None"
    by (simp add: element_one_def)
  from absent_tokens_model[OF t, of example_text example_parser] t ra re
  show ?thesis by simp
qed

section \<open>Inline configuration comments\<close>

text \<open>How \<open>forEach\<close> runs over a list put together from two.\<close>

lemma forEach_append:
  "forEach f (xs @ ys) s =
     (case forEach f xs s of Inl e \<Rightarrow> Inl e | Inr s' \<Rightarrow> forEach f ys s')"
  by (induction xs arbitrary: s) (simp_all split: sum.splits)

lemma dd_append_empty [simp]: "dd_append r dd_empty = r" "dd_append dd_empty r = r"
  by (simp_all add: dd_append_def dd_empty_def)

lemma dd_append_assoc: "dd_append (dd_append r s) t = dd_append r (dd_append s t)"
  by (simp add: dd_append_def)

lemma ic_append_empty [simp]: "ic_append r ic_empty = r" "ic_append ic_empty r = r"
  by (simp_all add: ic_append_def ic_empty_def)

lemma ic_append_assoc: "ic_append (ic_append r s) t = ic_append r (ic_append s t)"
  by (simp add: ic_append_def)

lemma dd_callback_appends:
  "getDisableDirectives_callback cp sc acc comment =
     map_sum id (dd_append acc) (getDisableDirectives_callback cp sc dd_empty comment)"
  by (simp add: getDisableDirectives_callback_def dd_append_def dd_empty_def
           split: sum.splits option.splits)

lemma ic_callback_appends:
  "applyInlineConfig_callback cp sc acc comment =
     map_sum id (ic_append acc) (applyInlineConfig_callback cp sc ic_empty comment)"
  by (simp add: applyInlineConfig_callback_def ic_append_def ic_empty_def
           split: sum.splits option.splits parse_result.splits)

lemma dd_forEach_appends:
  "forEach (getDisableDirectives_callback cp sc) xs acc =
     map_sum id (dd_append acc) (forEach (getDisableDirectives_callback cp sc) xs dd_empty)"
proof (induction xs arbitrary: acc)
  case Nil
  then show ?case by simp
next
  case (Cons x xs)
  show ?case
  proof (cases "getDisableDirectives_callback cp sc dd_empty x")
    case (Inl e)
    then show ?thesis
      by (simp add: dd_callback_appends[of cp sc acc x])
  next
    case (Inr r)
    have "forEach (getDisableDirectives_callback cp sc) (x # xs) acc
            = forEach (getDisableDirectives_callback cp sc) xs (dd_append acc r)"
      using Inr by (simp add: dd_callback_appends[of cp sc acc x])
    also have "\<dots> = map_sum id (dd_append (dd_append acc r))
                     (forEach (getDisableDirectives_callback cp sc) xs dd_empty)"
      by (rule Cons.IH)
    finally have lhs: "forEach (getDisableDirectives_callback cp sc) (x # xs) acc
        = map_sum id (dd_append (dd_append acc r))
            (forEach (getDisableDirectives_callback cp sc) xs dd_empty)" .
    have "forEach (getDisableDirectives_callback cp sc) (x # xs) dd_empty
            = forEach (getDisableDirectives_callback cp sc) xs r"
      using Inr by simp
    also have "\<dots> = map_sum id (dd_append r)
                     (forEach (getDisableDirectives_callback cp sc) xs dd_empty)"
      by (rule Cons.IH)
    finally have rhs: "forEach (getDisableDirectives_callback cp sc) (x # xs) dd_empty
        = map_sum id (dd_append r) (forEach (getDisableDirectives_callback cp sc) xs dd_empty)" .
    show ?thesis
      unfolding lhs rhs
      by (cases "forEach (getDisableDirectives_callback cp sc) xs dd_empty")
         (simp_all add: dd_append_assoc)
  qed
qed

lemma ic_forEach_appends:
  "forEach (applyInlineConfig_callback cp sc) xs acc =
     map_sum id (ic_append acc) (forEach (applyInlineConfig_callback cp sc) xs ic_empty)"
proof (induction xs arbitrary: acc)
  case Nil
  then show ?case by simp
next
  case (Cons x xs)
  show ?case
  proof (cases "applyInlineConfig_callback cp sc ic_empty x")
    case (Inl e)
    then show ?thesis
      by (simp add: ic_callback_appends[of cp sc acc x])
  next
    case (Inr r)
    have "forEach (applyInlineConfig_callback cp sc) (x # xs) acc
            = forEach (applyInlineConfig_callback cp sc) xs (ic_append acc r)"
      using Inr by (simp add: ic_callback_appends[of cp sc acc x])
    also have "\<dots> = map_sum id (ic_append (ic_append acc r))
                     (forEach (applyInlineConfig_callback cp sc) xs ic_empty)"
      by (rule Cons.IH)
    finally have lhs: "forEach (applyInlineConfig_callback cp sc) (x # xs) acc
        = map_sum id (ic_append (ic_append acc r))
            (forEach (applyInlineConfig_callback cp sc) xs ic_empty)" .
    have "forEach (applyInlineConfig_callback cp sc) (x # xs) ic_empty
            = forEach (applyInlineConfig_callback cp sc) xs r"
      using Inr by simp
    also have "\<dots> = map_sum id (ic_append r)
                     (forEach (applyInlineConfig_callback cp sc) xs ic_empty)"
      by (rule Cons.IH)
    finally have rhs: "forEach (applyInlineConfig_callback cp sc) (x # xs) ic_empty
        = map_sum id (ic_append r) (forEach (applyInlineConfig_callback cp sc) xs ic_empty)" .
    show ?thesis
      unfolding lhs rhs
      by (cases "forEach (applyInlineConfig_callback cp sc) xs ic_empty")
         (simp_all add: ic_append_assoc)
  qed
qed

text \<open>The run over a list of comments with one comment singled out.\<close>

lemma dd_forEach_around:
  assumes "forEach (getDisableDirectives_callback cp sc) pre dd_empty = Inr before"
    and "getDisableDirectives_callback cp sc dd_empty comment = Inr mid"
    and "forEach (getDisableDirectives_callback cp sc) post dd_empty = Inr after"
  shows "forEach (getDisableDirectives_callback cp sc) (pre @ comment # post) dd_empty
           = Inr (dd_append before (dd_append mid after))"
proof -
  have "forEach (getDisableDirectives_callback cp sc) (pre @ comment # post) dd_empty
      = forEach (getDisableDirectives_callback cp sc) (comment # post) before"
    using assms(1) by (simp add: forEach_append)
  also have "\<dots> = forEach (getDisableDirectives_callback cp sc) post (dd_append before mid)"
    using assms(2) by (simp add: dd_callback_appends[of cp sc before comment])
  also have "\<dots> = Inr (dd_append (dd_append before mid) after)"
    using assms(3) by (simp add: dd_forEach_appends[of cp sc post "dd_append before mid"])
  finally show ?thesis by (simp add: dd_append_assoc)
qed

lemma ic_forEach_around:
  assumes "forEach (applyInlineConfig_callback cp sc) pre ic_empty = Inr before"
    and "applyInlineConfig_callback cp sc ic_empty comment = Inr mid"
    and "forEach (applyInlineConfig_callback cp sc) post ic_empty = Inr after"
  shows "forEach (applyInlineConfig_callback cp sc) (pre @ comment # post) ic_empty
           = Inr (ic_append before (ic_append mid after))"
proof -
  have "forEach (applyInlineConfig_callback cp sc) (pre @ comment # post) ic_empty
      = forEach (applyInlineConfig_callback cp sc) (comment # post) before"
    using assms(1) by (simp add: forEach_append)
  also have "\<dots> = forEach (applyInlineConfig_callback cp sc) post (ic_append before mid)"
    using assms(2) by (simp add: ic_callback_appends[of cp sc before comment])
  also have "\<dots> = Inr (ic_append (ic_append before mid) after)"
    using assms(3) by (simp add: ic_forEach_appends[of cp sc post "ic_append before mid"])
  finally show ?thesis by (simp add: ic_append_assoc)
qed

text \<open>What the callbacks add for one comment.\<close>

lemma label_eslint_not_directive:
  "js ''eslint'' \<notin> set directive_labels" "js ''eslint'' \<noteq> js ''eslint-disable-line''"
  by (simp_all add: directive_labels_def js_def)

lemma directive_label_prefix:
  "l \<in> set directive_labels \<Longrightarrow> js ''eslint-'' @ slice_from l (length (js ''eslint-'')) = l"
  by (auto simp: directive_labels_def js_def slice_from_def)

lemma dd_callback_directive:
  assumes "getCommentValue sc comment = Inr v" and "parseDirective cp v = Some d"
    and "label d \<in> set directive_labels"
    and "label d = js ''eslint-disable-line'' \<longrightarrow>
           line (loc_start (tok_loc comment)) = line (loc_end (tok_loc comment))"
  shows "getDisableDirectives_callback cp sc dd_empty comment =
           Inr \<lparr> dd_problems = [],
                 dd_directives = [\<lparr> dir_type = slice_from (label d) (length (js ''eslint-'')),
                                    dir_node = comment, dir_value = dc_value d,
                                    dir_justification = justification d \<rparr>] \<rparr>"
  using assms by (auto simp: getDisableDirectives_callback_def dd_empty_def)

lemma dd_callback_config:
  assumes "getCommentValue sc comment = Inr v" and "parseDirective cp v = Some d"
    and "label d = js ''eslint''"
  shows "getDisableDirectives_callback cp sc dd_empty comment = Inr dd_empty"
  using assms label_eslint_not_directive
  by (simp add: getDisableDirectives_callback_def)

lemma dd_callback_multiline:
  assumes "getCommentValue sc comment = Inr v" and "parseDirective cp v = Some d"
    and "label d = js ''eslint-disable-line''"
    and "line (loc_start (tok_loc comment)) \<noteq> line (loc_end (tok_loc comment))"
  shows "getDisableDirectives_callback cp sc dd_empty comment =
           Inr \<lparr> dd_problems =
                   [\<lparr> ruleId = None,
                      message = js ''eslint-disable-line comment should not span multiple lines.'',
                      problem_loc = tok_loc comment \<rparr>],
                 dd_directives = [] \<rparr>"
  using assms by (simp add: getDisableDirectives_callback_def dd_empty_def js_def)

lemma ic_callback_ok:
  assumes "getCommentValue sc comment = Inr v" and "parseDirective cp v = Some d"
    and "label d = js ''eslint''" and "parseJSONLikeConfig cp (dc_value d) = ParseOk parsed"
  shows "applyInlineConfig_callback cp sc ic_empty comment =
           Inr \<lparr> ic_configs = [\<lparr> config = \<lparr> rules = parsed \<rparr>, config_loc = tok_loc comment \<rparr>],
                 ic_problems = [] \<rparr>"
  using assms by (simp add: applyInlineConfig_callback_def ic_empty_def)

lemma ic_callback_failed:
  assumes "getCommentValue sc comment = Inr v" and "parseDirective cp v = Some d"
    and "label d = js ''eslint''" and "parseJSONLikeConfig cp (dc_value d) = ParseFailed msg"
  shows "applyInlineConfig_callback cp sc ic_empty comment =
           Inr \<lparr> ic_configs = [],
                 ic_problems = [\<lparr> ruleId = None, message = msg, problem_loc = tok_loc comment \<rparr>] \<rparr>"
  using assms by (simp add: applyInlineConfig_callback_def ic_empty_def)

lemma getDisableDirectives_around:
  assumes "getInlineConfigNodes sc = (Inr (pre @ comment # post), sc')"
    and "forEach (getDisableDirectives_callback cp sc') pre
           \<lparr> dd_problems = [], dd_directives = [] \<rparr> = Inr before"
    and "getDisableDirectives_callback cp sc' dd_empty comment = Inr mid"
    and "forEach (getDisableDirectives_callback cp sc') post
           \<lparr> dd_problems = [], dd_directives = [] \<rparr> = Inr after"
  shows "getDisableDirectives cp sc =
           (Inr \<lparr> dd_problems = dd_problems before @ dd_problems mid @ dd_problems after,
                  dd_directives = dd_directives before @ dd_directives mid @ dd_directives after \<rparr>,
                sc')"
proof -
  have "forEach (getDisableDirectives_callback cp sc') (pre @ comment # post) dd_empty
           = Inr (dd_append before (dd_append mid after))"
    using assms(2-4) unfolding dd_empty_def[symmetric] by (rule dd_forEach_around)
  then show ?thesis
    using assms(1) by (simp add: getDisableDirectives_def dd_empty_def dd_append_def)
qed

lemma applyInlineConfig_around:
  assumes "getInlineConfigNodes sc = (Inr (pre @ comment # post), sc')"
    and "forEach (applyInlineConfig_callback cp sc') pre
           \<lparr> ic_configs = [], ic_problems = [] \<rparr> = Inr before"
    and "applyInlineConfig_callback cp sc' ic_empty comment = Inr mid"
    and "forEach (applyInlineConfig_callback cp sc') post
           \<lparr> ic_configs = [], ic_problems = [] \<rparr> = Inr after"
  shows "applyInlineConfig cp sc =
           (Inr \<lparr> ic_configs = ic_configs before @ ic_configs mid @ ic_configs after,
                  ic_problems = ic_problems before @ ic_problems mid @ ic_problems after \<rparr>,
                sc')"
proof -
  have "forEach (applyInlineConfig_callback cp sc') (pre @ comment # post) ic_empty
           = Inr (ic_append before (ic_append mid after))"
    using assms(2-4) unfolding ic_empty_def[symmetric] by (rule ic_forEach_around)
  then show ?thesis
    using assms(1) by (simp add: applyInlineConfig_def ic_empty_def ic_append_def)
qed

text \<open>The example document: its inline configuration comments and how they parse.\<close>

lemma example_filter:
  "filter_inline_config example_model (comments example_model) = Inr example_inline_comments"
  by (simp add: model_eval example_eval)

lemma example_getInlineConfigNodes:
  "getInlineConfigNodes example_model = (Inr example_inline_comments, example_cached)"
proof -
  have "inlineConfigComments example_model = None"
    by (simp add: example_model_def constructed_cache_empty)
  then show ?thesis
    by (simp add: getInlineConfigNodes_def example_filter example_cached_def)
qed

lemma example_values:
  "getCommentValue example_cached config_comment = Inr (js '' eslint a: 2 '')"
  "getCommentValue example_cached one_line_comment = Inr (js '' eslint-disable-line b -- why'')"
  "getCommentValue example_cached two_line_comment = Inr (js '' eslint-disable-line c\<newline>'')"
  "getCommentValue example_cached bad_config_comment = Inr (js '' eslint x: '')"
  by (simp_all add: model_eval example_eval)

lemma example_parses:
  "parseDirective example_parser (js '' eslint a: 2 '')
     = Some \<lparr> label = js ''eslint'', dc_value = js ''a: 2'', justification = None \<rparr>"
  "parseDirective example_parser (js '' eslint-disable-line b -- why'')
     = Some \<lparr> label = js ''eslint-disable-line'', dc_value = js ''b'',
              justification = Some (js ''why'') \<rparr>"
  "parseDirective example_parser (js '' eslint-disable-line c\<newline>'')
     = Some \<lparr> label = js ''eslint-disable-line'', dc_value = js ''c'', justification = None \<rparr>"
  "parseDirective example_parser (js '' eslint x: '')
     = Some \<lparr> label = js ''eslint'', dc_value = js ''x:'', justification = None \<rparr>"
  by (simp_all add: model_eval example_eval)

lemma example_configs:
  "parseJSONLikeConfig example_parser (js ''a: 2'') = ParseOk [(js ''a'', 2)]"
  "parseJSONLikeConfig example_parser (js ''x:'')
     = ParseFailed (js ''Failed to parse JSON from x:'')"
  by (simp_all add: model_eval example_eval)

lemma example_split:
  "example_inline_comments
     = [] @ config_comment # [one_line_comment, two_line_comment, bad_config_comment]"
  "example_inline_comments
     = [config_comment] @ one_line_comment # [two_line_comment, bad_config_comment]"
  "example_inline_comments
     = [config_comment, one_line_comment] @ two_line_comment # [bad_config_comment]"
  "example_inline_comments
     = [config_comment, one_line_comment, two_line_comment] @ bad_config_comment # []"
  by (simp_all add: example_inline_comments_def)

lemma example_lines:
  "line (loc_start (tok_loc one_line_comment)) = line (loc_end (tok_loc one_line_comment))"
  "line (loc_start (tok_loc two_line_comment)) \<noteq> line (loc_end (tok_loc two_line_comment))"
  by (simp_all add: example_eval)

text \<open>
  C4. Let \<open>comment\<close> be one of the inline configuration comments, with \<open>pre\<close> before it
  and \<open>post\<close> after it, let its parsed label be \<open>eslint\<close>, and let the comments before
  and after it be processed with the results \<open>before\<close> and \<open>after\<close>. When the
  configuration parser succeeds, \<open>applyInlineConfig\<close> returns, between the entries of
  the comments before and after, exactly one entry for the comment, with the parsed
  rules (as \<open>config.rules\<close>) and the location of the comment, and no problem for it.
  When the parser fails it returns no entry for the comment and exactly one problem, with
  \<open>ruleId\<close> null, the parser's message and the location of the comment. In both cases
  the results of the other comments are all there, unchanged.
\<close>

theorem inline_config_entry_or_problem:
  assumes "getInlineConfigNodes sc = (Inr (pre @ comment # post), sc')"
    and "getCommentValue sc' comment = Inr v"
    and "parseDirective commentParser v = Some d"
    and "label d = js ''eslint''"
    and "forEach (applyInlineConfig_callback commentParser sc') pre
           \<lparr> ic_configs = [], ic_problems = [] \<rparr> = Inr before"
    and "forEach (applyInlineConfig_callback commentParser sc') post
           \<lparr> ic_configs = [], ic_problems = [] \<rparr> = Inr after"
  shows "(\<forall>parsed. parseJSONLikeConfig commentParser (dc_value d) = ParseOk parsed \<longrightarrow>
            applyInlineConfig commentParser sc =
              (Inr \<lparr> ic_configs = ic_configs before
                        @ [\<lparr> config = \<lparr> rules = parsed \<rparr>, config_loc = tok_loc comment \<rparr>]
                        @ ic_configs after,
                     ic_problems = ic_problems before @ ic_problems after \<rparr>, sc'))
       \<and> (\<forall>msg. parseJSONLikeConfig commentParser (dc_value d) = ParseFailed msg \<longrightarrow>
            applyInlineConfig commentParser sc =
              (Inr \<lparr> ic_configs = ic_configs before @ ic_configs after,
                     ic_problems = ic_problems before
                        @ [\<lparr> ruleId = None, message = msg, problem_loc = tok_loc comment \<rparr>]
                        @ ic_problems after \<rparr>, sc'))"
proof (intro conjI allI impI)
  fix parsed
  assume "parseJSONLikeConfig commentParser (dc_value d) = ParseOk parsed"
  with assms(2-4) have "applyInlineConfig_callback commentParser sc' ic_empty comment =
      Inr \<lparr> ic_configs = [\<lparr> config = \<lparr> rules = parsed \<rparr>, config_loc = tok_loc comment \<rparr>],
            ic_problems = [] \<rparr>"
    by (rule ic_callback_ok)
  from applyInlineConfig_around[OF assms(1) assms(5) this assms(6)]
  show "applyInlineConfig commentParser sc =
      (Inr \<lparr> ic_configs = ic_configs before
                @ [\<lparr> config = \<lparr> rules = parsed \<rparr>, config_loc = tok_loc comment \<rparr>]
                @ ic_configs after,
             ic_problems = ic_problems before @ ic_problems after \<rparr>, sc')"
    by simp
next
  fix msg
  assume "parseJSONLikeConfig commentParser (dc_value d) = ParseFailed msg"
  with assms(2-4) have "applyInlineConfig_callback commentParser sc' ic_empty comment =
      Inr \<lparr> ic_configs = [],
            ic_problems = [\<lparr> ruleId = None, message = msg, problem_loc = tok_loc comment \<rparr>] \<rparr>"
    by (rule ic_callback_failed)
  from applyInlineConfig_around[OF assms(1) assms(5) this assms(6)]
  show "applyInlineConfig commentParser sc =
      (Inr \<lparr> ic_configs = ic_configs before @ ic_configs after,
             ic_problems = ic_problems before
                @ [\<lparr> ruleId = None, message = msg, problem_loc = tok_loc comment \<rparr>]
                @ ic_problems after \<rparr>, sc')"
    by simp
qed

text \<open>
  In the example document the first comment is a rule configuration that parses and the
  fourth one that does not: \<open>applyInlineConfig\<close> returns one entry for the first and
  one problem for the fourth.
\<close>

theorem inline_config_entry_or_problem_witness:
  "getInlineConfigNodes example_model
     = (Inr ([] @ config_comment # [one_line_comment, two_line_comment, bad_config_comment]),
            example_cached)
   \<and> getCommentValue example_cached config_comment = Inr (js '' eslint a: 2 '')
   \<and> parseDirective example_parser (js '' eslint a: 2 '')
       = Some \<lparr> label = js ''eslint'', dc_value = js ''a: 2'', justification = None \<rparr>
   \<and> parseJSONLikeConfig example_parser (js ''a: 2'') = ParseOk [(js ''a'', 2)]
   \<and> parseJSONLikeConfig example_parser (js ''x:'')
       = ParseFailed (js ''Failed to parse JSON from x:'')
   \<and> applyInlineConfig example_parser example_model =
       (Inr \<lparr> ic_configs = [\<lparr> config = \<lparr> rules = [(js ''a'', 2)] \<rparr>,
                               config_loc = tok_loc config_comment \<rparr>],
              ic_problems = [\<lparr> ruleId = None,
                                message = js ''Failed to parse JSON from x:'',
                                problem_loc = tok_loc bad_config_comment \<rparr>] \<rparr>,
            example_cached)"
proof -
  let ?entry = "\<lparr> config = \<lparr> rules = [(js ''a'', 2::nat)] \<rparr>,
                  config_loc = tok_loc config_comment \<rparr>"
  let ?problem = "\<lparr> ruleId = None, message = js ''Failed to parse JSON from x:'',
                    problem_loc = tok_loc bad_config_comment \<rparr>"
  have nodes: "getInlineConfigNodes example_model
     = (Inr ([] @ config_comment # [one_line_comment, two_line_comment, bad_config_comment]),
            example_cached)"
    using example_getInlineConfigNodes example_split(1) by simp
  have nodes': "getInlineConfigNodes example_model
     = (Inr ([config_comment, one_line_comment, two_line_comment] @ bad_config_comment # []),
            example_cached)"
    using example_getInlineConfigNodes example_split(4) by simp
  have pre: "forEach (applyInlineConfig_callback example_parser example_cached) []
      \<lparr> ic_configs = [], ic_problems = [] \<rparr> = Inr \<lparr> ic_configs = [], ic_problems = [] \<rparr>"
    by simp
  have post: "forEach (applyInlineConfig_callback example_parser example_cached)
      [one_line_comment, two_line_comment, bad_config_comment]
      \<lparr> ic_configs = [], ic_problems = [] \<rparr> = Inr \<lparr> ic_configs = [], ic_problems = [?problem] \<rparr>"
    by (simp add: applyInlineConfig_callback_def example_values example_parses example_configs)
       (simp add: js_def)
  have pre': "forEach (applyInlineConfig_callback example_parser example_cached)
      [config_comment, one_line_comment, two_line_comment]
      \<lparr> ic_configs = [], ic_problems = [] \<rparr> = Inr \<lparr> ic_configs = [?entry], ic_problems = [] \<rparr>"
    by (simp add: applyInlineConfig_callback_def example_values example_parses example_configs)
       (simp add: js_def)
  have ok: "applyInlineConfig example_parser example_model =
       (Inr \<lparr> ic_configs = [?entry], ic_problems = [?problem] \<rparr>, example_cached)"
    using inline_config_entry_or_problem
      [OF nodes example_values(1) example_parses(1) _ pre post, THEN conjunct1]
      example_configs(1)
    by simp
  have failed: "applyInlineConfig example_parser example_model =
       (Inr \<lparr> ic_configs = [?entry], ic_problems = [?problem] \<rparr>, example_cached)"
    using inline_config_entry_or_problem
      [OF nodes' example_values(4) example_parses(4) _ pre' pre, THEN conjunct2]
      example_configs(2)
    by simp
  from nodes example_values(1) example_parses(1) example_configs ok failed
  show ?thesis by (intro conjI)
qed

text \<open>
  C5. Let \<open>comment\<close> be one of the inline configuration comments, with \<open>pre\<close> before it
  and \<open>post\<close> after it, and let the comments before and after it be processed with the
  results \<open>before\<close> and \<open>after\<close>. When its parsed label is one of the four
  disable/enable labels (and, for \<open>eslint-disable-line\<close>, it starts and ends on the same
  line), \<open>getDisableDirectives\<close> returns exactly one directive for the comment: its type
  is the label without the prefix \<open>eslint-\<close>, its node the comment, and it carries the
  parsed value and justification. When the label is \<open>eslint\<close> it returns no directive
  and no problem for the comment.
\<close>

theorem disable_directive_emitted:
  assumes "getInlineConfigNodes sc = (Inr (pre @ comment # post), sc')"
    and "getCommentValue sc' comment = Inr v"
    and "parseDirective commentParser v = Some d"
    and "forEach (getDisableDirectives_callback commentParser sc') pre
           \<lparr> dd_problems = [], dd_directives = [] \<rparr> = Inr before"
    and "forEach (getDisableDirectives_callback commentParser sc') post
           \<lparr> dd_problems = [], dd_directives = [] \<rparr> = Inr after"
  shows "(label d \<in> {js ''eslint-disable'', js ''eslint-enable'',
                      js ''eslint-disable-next-line'', js ''eslint-disable-line''}
          \<and> (label d = js ''eslint-disable-line'' \<longrightarrow>
                line (loc_start (tok_loc comment)) = line (loc_end (tok_loc comment)))
          \<longrightarrow> (\<exists>ty. label d = js ''eslint-'' @ ty
                \<and> getDisableDirectives commentParser sc =
                    (Inr \<lparr> dd_problems = dd_problems before @ dd_problems after,
                           dd_directives = dd_directives before
                             @ [\<lparr> dir_type = ty, dir_node = comment, dir_value = dc_value d,
                                  dir_justification = justification d \<rparr>]
                             @ dd_directives after \<rparr>, sc')))
       \<and> (label d = js ''eslint'' \<longrightarrow>
            getDisableDirectives commentParser sc =
              (Inr \<lparr> dd_problems = dd_problems before @ dd_problems after,
                     dd_directives = dd_directives before @ dd_directives after \<rparr>, sc'))"
proof (intro conjI impI)
  assume h: "label d \<in> {js ''eslint-disable'', js ''eslint-enable'',
                      js ''eslint-disable-next-line'', js ''eslint-disable-line''}
          \<and> (label d = js ''eslint-disable-line'' \<longrightarrow>
                line (loc_start (tok_loc comment)) = line (loc_end (tok_loc comment)))"
  then have l: "label d \<in> set directive_labels"
    by (simp add: directive_labels_def)
  let ?ty = "slice_from (label d) (length (js ''eslint-''))"
  from assms(2,3) l h have "getDisableDirectives_callback commentParser sc' dd_empty comment =
      Inr \<lparr> dd_problems = [],
            dd_directives = [\<lparr> dir_type = ?ty, dir_node = comment, dir_value = dc_value d,
                               dir_justification = justification d \<rparr>] \<rparr>"
    by (intro dd_callback_directive) simp_all
  from getDisableDirectives_around[OF assms(1) assms(4) this assms(5)]
  have "getDisableDirectives commentParser sc =
      (Inr \<lparr> dd_problems = dd_problems before @ dd_problems after,
             dd_directives = dd_directives before
               @ [\<lparr> dir_type = ?ty, dir_node = comment, dir_value = dc_value d,
                    dir_justification = justification d \<rparr>]
               @ dd_directives after \<rparr>, sc')"
    by simp
  moreover have "label d = js ''eslint-'' @ ?ty"
    using directive_label_prefix[OF l] by simp
  ultimately show "\<exists>ty. label d = js ''eslint-'' @ ty
      \<and> getDisableDirectives commentParser sc =
          (Inr \<lparr> dd_problems = dd_problems before @ dd_problems after,
                 dd_directives = dd_directives before
                   @ [\<lparr> dir_type = ty, dir_node = comment, dir_value = dc_value d,
                        dir_justification = justification d \<rparr>]
                   @ dd_directives after \<rparr>, sc')"
    by blast
next
  assume "label d = js ''eslint''"
  with assms(2,3) have "getDisableDirectives_callback commentParser sc' dd_empty comment
      = Inr dd_empty"
    by (rule dd_callback_config)
  from getDisableDirectives_around[OF assms(1) assms(4) this assms(5)]
  show "getDisableDirectives commentParser sc =
      (Inr \<lparr> dd_problems = dd_problems before @ dd_problems after,
             dd_directives = dd_directives before @ dd_directives after \<rparr>, sc')"
    by (simp add: dd_empty_def)
qed

text \<open>
  In the example document the comment \<open>// eslint-disable-line b -- why\<close> gives the
  one directive of type \<open>disable-line\<close> with value \<open>b\<close> and justification \<open>why\<close>;
  the rule configuration before it gives none.
\<close>

theorem disable_directive_emitted_witness:
  "getInlineConfigNodes example_model
     = (Inr ([config_comment] @ one_line_comment # [two_line_comment, bad_config_comment]),
            example_cached)
   \<and> getCommentValue example_cached one_line_comment
       = Inr (js '' eslint-disable-line b -- why'')
   \<and> parseDirective example_parser (js '' eslint-disable-line b -- why'')
       = Some \<lparr> label = js ''eslint-disable-line'', dc_value = js ''b'',
                justification = Some (js ''why'') \<rparr>
   \<and> line (loc_start (tok_loc one_line_comment)) = line (loc_end (tok_loc one_line_comment))
   \<and> getDisableDirectives example_parser example_model =
       (Inr \<lparr> dd_problems =
                [\<lparr> ruleId = None,
                   message = js ''eslint-disable-line comment should not span multiple lines.'',
                   problem_loc = tok_loc two_line_comment \<rparr>],
              dd_directives =
                [\<lparr> dir_type = js ''disable-line'', dir_node = one_line_comment,
                   dir_value = js ''b'', dir_justification = Some (js ''why'') \<rparr>] \<rparr>,
            example_cached)"
proof -
  let ?problem = "\<lparr> ruleId = None,
      message = js ''eslint-disable-line comment should not span multiple lines.'',
      problem_loc = tok_loc two_line_comment \<rparr>"
  let ?d = "\<lparr> label = js ''eslint-disable-line'', dc_value = js ''b'',
              justification = Some (js ''why'') \<rparr>"
  have nodes: "getInlineConfigNodes example_model
     = (Inr ([config_comment] @ one_line_comment # [two_line_comment, bad_config_comment]),
            example_cached)"
    using example_getInlineConfigNodes example_split(2) by simp
  have nodes': "getInlineConfigNodes example_model
     = (Inr ([] @ config_comment # [one_line_comment, two_line_comment, bad_config_comment]),
            example_cached)"
    using example_getInlineConfigNodes example_split(1) by simp
  have pre: "forEach (getDisableDirectives_callback example_parser example_cached)
      [config_comment] \<lparr> dd_problems = [], dd_directives = [] \<rparr>
      = Inr \<lparr> dd_problems = [], dd_directives = [] \<rparr>"
    by (simp add: getDisableDirectives_callback_def example_values example_parses)
       (simp add: js_def directive_labels_def)
  have post: "forEach (getDisableDirectives_callback example_parser example_cached)
      [two_line_comment, bad_config_comment] \<lparr> dd_problems = [], dd_directives = [] \<rparr>
      = Inr \<lparr> dd_problems = [?problem], dd_directives = [] \<rparr>"
    by (simp add: getDisableDirectives_callback_def example_values example_parses example_lines)
       (simp add: js_def directive_labels_def)
  have lab: "label ?d \<in> {js ''eslint-disable'', js ''eslint-enable'',
      js ''eslint-disable-next-line'', js ''eslint-disable-line''}"
    by simp
  have "\<exists>ty. label ?d = js ''eslint-'' @ ty
      \<and> getDisableDirectives example_parser example_model =
          (Inr \<lparr> dd_problems = [?problem],
                 dd_directives = [\<lparr> dir_type = ty, dir_node = one_line_comment,
                     dir_value = dc_value ?d, dir_justification = justification ?d \<rparr>] \<rparr>,
               example_cached)"
    using disable_directive_emitted
      [OF nodes example_values(2) example_parses(2) pre post, THEN conjunct1]
      lab example_lines(1)
    by simp
  then obtain ty where ty: "js ''eslint-disable-line'' = js ''eslint-'' @ ty"
    and r: "getDisableDirectives example_parser example_model =
          (Inr \<lparr> dd_problems = [?problem],
                 dd_directives = [\<lparr> dir_type = ty, dir_node = one_line_comment,
                     dir_value = js ''b'', dir_justification = Some (js ''why'') \<rparr>] \<rparr>,
               example_cached)"
    by auto
  from ty have "ty = js ''disable-line''" by (simp add: js_def)
  with r have result: "getDisableDirectives example_parser example_model =
       (Inr \<lparr> dd_problems = [?problem],
              dd_directives =
                [\<lparr> dir_type = js ''disable-line'', dir_node = one_line_comment,
                   dir_value = js ''b'', dir_justification = Some (js ''why'') \<rparr>] \<rparr>,
            example_cached)"
    by simp
  have post': "forEach (getDisableDirectives_callback example_parser example_cached)
      [one_line_comment, two_line_comment, bad_config_comment]
      \<lparr> dd_problems = [], dd_directives = [] \<rparr>
      = Inr \<lparr> dd_problems = [?problem],
              dd_directives = [\<lparr> dir_type = js ''disable-line'', dir_node = one_line_comment,
                   dir_value = js ''b'', dir_justification = Some (js ''why'') \<rparr>] \<rparr>"
    by (simp add: getDisableDirectives_callback_def example_values example_parses example_lines)
       (simp add: js_def directive_labels_def slice_from_def)
  have "getDisableDirectives example_parser example_model =
       (Inr \<lparr> dd_problems = [?problem],
              dd_directives =
                [\<lparr> dir_type = js ''disable-line'', dir_node = one_line_comment,
                   dir_value = js ''b'', dir_justification = Some (js ''why'') \<rparr>] \<rparr>,
            example_cached)"
    using disable_directive_emitted
      [OF nodes' example_values(1) example_parses(1) _ post', THEN conjunct2,
       of "\<lparr> dd_problems = [], dd_directives = [] \<rparr>"]
    by simp
  from nodes example_values(2) example_parses(2) example_lines(1) result
  show ?thesis by (intro conjI)
qed

text \<open>
  C6. An \<open>eslint-disable-line\<close> comment whose start line differs from its end line
  gives no directive and exactly one problem: \<open>ruleId\<close> null, the location of the
  comment, and the message that the comment should not span multiple lines.
\<close>

theorem multiline_disable_line_problem:
  assumes "getInlineConfigNodes sc = (Inr (pre @ comment # post), sc')"
    and "getCommentValue sc' comment = Inr v"
    and "parseDirective commentParser v = Some d"
    and "label d = js ''eslint-disable-line''"
    and "line (loc_start (tok_loc comment)) \<noteq> line (loc_end (tok_loc comment))"
    and "forEach (getDisableDirectives_callback commentParser sc') pre
           \<lparr> dd_problems = [], dd_directives = [] \<rparr> = Inr before"
    and "forEach (getDisableDirectives_callback commentParser sc') post
           \<lparr> dd_problems = [], dd_directives = [] \<rparr> = Inr after"
  shows "getDisableDirectives commentParser sc =
           (Inr \<lparr> dd_problems = dd_problems before
                     @ [\<lparr> ruleId = None,
                          message = js ''eslint-disable-line comment should not span multiple lines.'',
                          problem_loc = tok_loc comment \<rparr>]
                     @ dd_problems after,
                  dd_directives = dd_directives before @ dd_directives after \<rparr>, sc')"
proof -
  from assms(2-5) have "getDisableDirectives_callback commentParser sc' dd_empty comment =
      Inr \<lparr> dd_problems =
              [\<lparr> ruleId = None,
                 message = js ''eslint-disable-line comment should not span multiple lines.'',
                 problem_loc = tok_loc comment \<rparr>],
            dd_directives = [] \<rparr>"
    by (rule dd_callback_multiline)
  from getDisableDirectives_around[OF assms(1) assms(6) this assms(7)]
  show ?thesis by simp
qed

text \<open>
  In the example document the block comment of lines 2 and 3 gives the one problem.
\<close>

theorem multiline_disable_line_problem_witness:
  "getInlineConfigNodes example_model
     = (Inr ([config_comment, one_line_comment] @ two_line_comment # [bad_config_comment]),
            example_cached)
   \<and> getCommentValue example_cached two_line_comment
       = Inr (js '' eslint-disable-line c\<newline>'')
   \<and> parseDirective example_parser (js '' eslint-disable-line c\<newline>'')
       = Some \<lparr> label = js ''eslint-disable-line'', dc_value = js ''c'', justification = None \<rparr>
   \<and> line (loc_start (tok_loc two_line_comment)) \<noteq> line (loc_end (tok_loc two_line_comment))
   \<and> getDisableDirectives example_parser example_model =
       (Inr \<lparr> dd_problems =
                [\<lparr> ruleId = None,
                   message = js ''eslint-disable-line comment should not span multiple lines.'',
                   problem_loc = tok_loc two_line_comment \<rparr>],
              dd_directives =
                [\<lparr> dir_type = js ''disable-line'', dir_node = one_line_comment,
                   dir_value = js ''b'', dir_justification = Some (js ''why'') \<rparr>] \<rparr>,
            example_cached)"
proof -
  let ?directive = "\<lparr> dir_type = js ''disable-line'', dir_node = one_line_comment,
      dir_value = js ''b'', dir_justification = Some (js ''why'') \<rparr>"
  have nodes: "getInlineConfigNodes example_model
     = (Inr ([config_comment, one_line_comment] @ two_line_comment # [bad_config_comment]),
            example_cached)"
    using example_getInlineConfigNodes example_split(3) by simp
  have pre: "forEach (getDisableDirectives_callback example_parser example_cached)
      [config_comment, one_line_comment] \<lparr> dd_problems = [], dd_directives = [] \<rparr>
      = Inr \<lparr> dd_problems = [], dd_directives = [?directive] \<rparr>"
    by (simp add: getDisableDirectives_callback_def example_values example_parses example_lines)
       (simp add: js_def directive_labels_def slice_from_def)
  have post: "forEach (getDisableDirectives_callback example_parser example_cached)
      [bad_config_comment] \<lparr> dd_problems = [], dd_directives = [] \<rparr>
      = Inr \<lparr> dd_problems = [], dd_directives = [] \<rparr>"
    by (simp add: getDisableDirectives_callback_def example_values example_parses)
       (simp add: js_def directive_labels_def)
  have result: "getDisableDirectives example_parser example_model =
       (Inr \<lparr> dd_problems =
                [\<lparr> ruleId = None,
                   message = js ''eslint-disable-line comment should not span multiple lines.'',
                   problem_loc = tok_loc two_line_comment \<rparr>],
              dd_directives = [?directive] \<rparr>,
            example_cached)"
    using multiline_disable_line_problem
      [OF nodes example_values(3) example_parses(3) _ example_lines(2) pre post]
    by simp
  from nodes example_values(3) example_parses(3) example_lines(2) result
  show ?thesis by (intro conjI)
qed

section \<open>Traversal\<close>

text \<open>Iterating an array and an array iterator; the loop of \<open>traverse\<close> as a fold.\<close>

declare drain.simps [simp del]

lemma drain_eq:
  "drain (ArrayIterator xs i) = (drop i xs, ArrayIterator xs (max i (length xs)))"
proof (induction "length xs - i" arbitrary: i)
  case 0
  then have "\<not> i < length xs" by simp
  then show ?case by (subst drain.simps) (simp add: max_def)
next
  case (Suc d)
  then have lt: "i < length xs" and d: "d = length xs - Suc i" by simp_all
  from Suc.hyps(1)[OF d]
  have ih: "drain (ArrayIterator xs (Suc i))
      = (drop (Suc i) xs, ArrayIterator xs (max (Suc i) (length xs)))" .
  have "drain (ArrayIterator xs i)
      = (xs ! i # drop (Suc i) xs, ArrayIterator xs (max (Suc i) (length xs)))"
    using lt by (subst drain.simps) (simp add: ih)
  with lt show ?case by (simp add: Cons_nth_drop_Suc max_def)
qed

lemma drain_by_next:
  "drain it =
     (case iterator_next it of
        (None, it') \<Rightarrow> ([], it')
      | (Some x, it') \<Rightarrow> (x # fst (drain it'), snd (drain it')))"
proof (cases it)
  case (ArrayIterator xs i)
  show ?thesis
    unfolding ArrayIterator by (subst drain.simps) (simp add: Let_def)
qed

lemma for_of_array: "for_of (ArrayObject xs) = (xs, ArrayObject xs)"
  by (simp add: drain_eq)

lemma for_of_iterator:
  "for_of (IteratorObject (ArrayIterator xs i))
     = (drop i xs, IteratorObject (ArrayIterator xs (max i (length xs))))"
  by (simp add: drain_eq)

declare for_of.simps [simp del]

lemma restartable_array: "restartable (ArrayObject xs)"
  by (simp add: restartable_def for_of_array)

lemma restartable_iterator:
  "restartable (IteratorObject (ArrayIterator xs 0)) \<longleftrightarrow> xs = []"
  by (auto simp: restartable_def for_of_iterator)

lemma traverse_fold:
  "foldl traverse_body (st, ps) evs = (st @ map step_of evs, foldl record_parent ps evs)"
  by (induction evs arbitrary: st ps)
     (simp_all add: traverse_body_def step_of_def record_parent_def Let_def
        split: option.splits)

lemma traverse_fresh:
  "steps sc = None \<Longrightarrow>
     traverse sc =
       (ArrayObject (map step_of (iterator (doc (ast sc)))),
        sc\<lparr> steps := Some (map step_of (iterator (doc (ast sc)))),
            parents := foldl record_parent (parents sc) (iterator (doc (ast sc))) \<rparr>)"
  by (simp add: traverse_def traverse_fold Let_def)

lemma traverse_cached_state:
  "steps sc = Some xs \<Longrightarrow> traverse sc = (IteratorObject (ArrayIterator xs 0), sc)"
  by (simp add: traverse_def)

lemma getInlineConfigNodes_state:
  "snd (getInlineConfigNodes sc) = sc
     \<or> (\<exists>kept. snd (getInlineConfigNodes sc) = sc\<lparr> inlineConfigComments := Some kept \<rparr>)"
  by (auto simp: getInlineConfigNodes_def split: option.splits sum.splits)

lemma getDisableDirectives_state:
  "snd (getDisableDirectives cp sc) = snd (getInlineConfigNodes sc)"
  by (simp add: getDisableDirectives_def split: prod.splits sum.splits)

lemma applyInlineConfig_state:
  "snd (applyInlineConfig cp sc) = snd (getInlineConfigNodes sc)"
  by (simp add: applyInlineConfig_def split: prod.splits sum.splits)

lemma other_calls_keep:
  assumes "op \<noteq> Traverse"
  shows "steps (after_call cp sc op) = steps sc \<and> parents (after_call cp sc op) = parents sc
       \<and> ast (after_call cp sc op) = ast sc"
proof -
  have "steps (snd (getInlineConfigNodes sc)) = steps sc
      \<and> parents (snd (getInlineConfigNodes sc)) = parents sc
      \<and> ast (snd (getInlineConfigNodes sc)) = ast sc"
    using getInlineConfigNodes_state[of sc] by auto
  then show ?thesis
    using assms
    by (cases op) (simp_all add: getDisableDirectives_state applyInlineConfig_state)
qed

lemma traverse_keeps_ast: "ast (snd (traverse sc)) = ast sc"
  by (cases "steps sc") (simp_all add: traverse_fresh traverse_cached_state)

lemma after_call_cached:
  "steps sc = Some xs \<Longrightarrow> steps (after_call cp sc op) = Some xs"
  by (cases "op = Traverse") (simp_all add: traverse_cached_state other_calls_keep)

lemma after_calls_snoc:
  "after_calls cp sc (ops @ [op]) = after_call cp (after_calls cp sc ops) op"
  by (simp add: after_calls_def)

lemma after_calls_cached:
  "steps sc = Some xs \<Longrightarrow> steps (after_calls cp sc ops) = Some xs"
  by (induction ops rule: rev_induct)
     (simp_all add: after_calls_snoc after_call_cached, simp add: after_calls_def)

subsection \<open>The cached steps\<close>

lemma traverse_sets_cache: "\<exists>xs. steps (snd (traverse sc)) = Some xs"
  by (cases "steps sc") (simp_all add: traverse_fresh traverse_cached_state)

lemma traverse_yields_cache:
  "steps (snd (traverse sc)) = Some xs \<Longrightarrow> fst (for_of (fst (traverse sc))) = xs"
  by (cases "steps sc")
     (auto simp: traverse_fresh traverse_cached_state for_of_array for_of_iterator)

text \<open>
  C1, as the code has it. A call of \<open>traverse\<close> leaves the step sequence \<open>xs\<close> in the
  cache and returns an object that yields \<open>xs\<close>. After it, whatever calls of the
  interface come between, every call of \<open>traverse\<close> leaves the instance as it is and
  returns a new array iterator over the same cached sequence with its cursor at the
  start: the cursor is part of the returned iterator and of nothing else, so that no
  iterator moves another. A loop over that iterator yields \<open>xs\<close>, the elements of the
  first call in the same order, and leaves the iterator at its end; a second loop over
  the same iterator yields nothing. The traversal starts again with a new call.
\<close>

theorem traverse_idempotent_cached:
  "\<exists>xs. steps (snd (traverse sc)) = Some xs
     \<and> fst (for_of (fst (traverse sc))) = xs
     \<and> (\<forall>ops. traverse (after_calls commentParser (snd (traverse sc)) ops)
                 = (IteratorObject (ArrayIterator xs 0),
                    after_calls commentParser (snd (traverse sc)) ops))
     \<and> for_of (IteratorObject (ArrayIterator xs 0))
           = (xs, IteratorObject (ArrayIterator xs (length xs)))
     \<and> for_of (IteratorObject (ArrayIterator xs (length xs)))
           = ([], IteratorObject (ArrayIterator xs (length xs)))"
proof -
  obtain xs where xs: "steps (snd (traverse sc)) = Some xs"
    using traverse_sets_cache by blast
  have a: "fst (for_of (fst (traverse sc))) = xs"
    using xs by (rule traverse_yields_cache)
  have b: "\<forall>ops. traverse (after_calls commentParser (snd (traverse sc)) ops)
                 = (IteratorObject (ArrayIterator xs 0),
                    after_calls commentParser (snd (traverse sc)) ops)"
  proof
    fix ops
    have "steps (after_calls commentParser (snd (traverse sc)) ops) = Some xs"
      using xs by (rule after_calls_cached)
    then show "traverse (after_calls commentParser (snd (traverse sc)) ops)
                 = (IteratorObject (ArrayIterator xs 0),
                    after_calls commentParser (snd (traverse sc)) ops)"
      by (rule traverse_cached_state)
  qed
  have c: "for_of (IteratorObject (ArrayIterator xs 0))
           = (xs, IteratorObject (ArrayIterator xs (length xs)))"
    by (simp add: for_of_iterator)
  have d: "for_of (IteratorObject (ArrayIterator xs (length xs)))
           = ([], IteratorObject (ArrayIterator xs (length xs)))"
    by (simp add: for_of_iterator)
  from xs a b c d show ?thesis by blast
qed

lemma example_model_fresh: "steps example_model = None" "ast example_model = example_document"
  by (simp_all add: example_model_def constructed_cache_empty constructed_ast)

lemma example_steps:
  "map (\<lambda>s. (nid (target s), phase s)) (map step_of (iterator (doc example_document)))
     = [(0, 1), (1, 1), (2, 1), (3, 1), (3, 2), (2, 2), (4, 1), (5, 1), (5, 2), (4, 2),
        (1, 2), (0, 2)]"
  by (simp add: iterator_def step_of_def example_eval)

text \<open>
  On the example document the first call yields the twelve steps of its six nodes, and a
  call after three more calls of the interface yields the same steps.
\<close>

theorem traverse_idempotent_cached_witness:
  "map (\<lambda>s. (nid (target s), phase s)) (fst (for_of (fst (traverse example_model))))
     = [(0, 1), (1, 1), (2, 1), (3, 1), (3, 2), (2, 2), (4, 1), (5, 1), (5, 2), (4, 2),
        (1, 2), (0, 2)]
   \<and> fst (for_of (fst (traverse
         (after_calls example_parser (snd (traverse example_model))
            [ApplyInlineConfig, Traverse, GetDisableDirectives]))))
       = fst (for_of (fst (traverse example_model)))"
proof -
  obtain xs where a: "fst (for_of (fst (traverse example_model))) = xs"
    and b: "\<forall>ops. traverse (after_calls example_parser (snd (traverse example_model)) ops)
                 = (IteratorObject (ArrayIterator xs 0),
                    after_calls example_parser (snd (traverse example_model)) ops)"
    and c: "for_of (IteratorObject (ArrayIterator xs 0))
           = (xs, IteratorObject (ArrayIterator xs (length xs)))"
    using traverse_idempotent_cached[of example_model example_parser] by blast
  have "fst (for_of (fst (traverse
         (after_calls example_parser (snd (traverse example_model))
            [ApplyInlineConfig, Traverse, GetDisableDirectives])))) = xs"
    using b c by simp
  moreover have "map (\<lambda>s. (nid (target s), phase s)) (fst (for_of (fst (traverse example_model))))
     = [(0, 1), (1, 1), (2, 1), (3, 1), (3, 2), (2, 2), (4, 1), (5, 1), (5, 2), (4, 2),
        (1, 2), (0, 2)]"
    using example_steps
    by (simp add: traverse_fresh example_model_fresh for_of_array)
  ultimately show ?thesis using a by simp
qed

text \<open>
  The iterator that a second call returns cannot be restarted: on the example document a
  second loop over it does not yield what the first loop did.
\<close>

theorem traverse_iterator_not_restartable:
  "\<not> restartable (fst (traverse (snd (traverse example_model))))"
proof -
  have "traverse (snd (traverse example_model))
      = (IteratorObject (ArrayIterator (map step_of (iterator (doc example_document))) 0),
         snd (traverse example_model))"
    by (rule traverse_cached_state) (simp add: traverse_fresh example_model_fresh)
  moreover have "map step_of (iterator (doc example_document)) \<noteq> []"
    using example_steps by auto
  ultimately show ?thesis by (simp add: restartable_iterator)
qed

subsection \<open>The order of the steps\<close>

text \<open>The events of a subtree stand together, between those before and those after.\<close>

lemma concat_map_split:
  "cs = xs @ c # ys \<Longrightarrow> concat (map f cs) = concat (map f xs) @ f c @ concat (map f ys)"
  by simp

lemma visitNode_block:
  "n \<in> set (subnodes r) \<Longrightarrow>
     \<exists>pre post p. visitNode r par = pre @ visitNode n p @ post"
proof (induction r arbitrary: par)
  case (Node i ty rg l cs)
  show ?case
  proof (cases "n = Node i ty rg l cs")
    case True
    have "visitNode (Node i ty rg l cs) par = [] @ visitNode n par @ []"
      using True by simp
    then show ?thesis by blast
  next
    case False
    with Node.prems obtain c where c: "c \<in> set cs" "n \<in> set (subnodes c)"
      by auto
    from c(1) obtain xs ys where cs: "cs = xs @ c # ys"
      by (auto simp: in_set_conv_decomp)
    from Node.IH[OF c(1) c(2), of "Some (Node i ty rg l cs)"]
    obtain pre post p where
      blk: "visitNode c (Some (Node i ty rg l cs)) = pre @ visitNode n p @ post"
      by blast
    let ?f = "\<lambda>c. visitNode c (Some (Node i ty rg l cs))"
    have mid: "concat (map ?f cs) = concat (map ?f xs) @ (pre @ visitNode n p @ post)
        @ concat (map ?f ys)"
      unfolding blk[symmetric] using cs by (rule concat_map_split)
    have "visitNode (Node i ty rg l cs) par =
        (\<lparr> ev_node = Node i ty rg l cs, ev_parent = par, ev_phase = enter \<rparr>
           # concat (map ?f xs) @ pre)
        @ visitNode n p
        @ (post @ concat (map ?f ys)
           @ [\<lparr> ev_node = Node i ty rg l cs, ev_parent = par, ev_phase = exit \<rparr>])"
      by (simp add: mid)
    then show ?thesis by blast
  qed
qed

text \<open>The nodes entered, in order, are the nodes of the tree in order.\<close>

lemma entered_nodes:
  "map ev_node (filter (\<lambda>ev. ev_phase ev = enter) (visitNode r par)) = subnodes r"
proof (induction r arbitrary: par)
  case (Node i ty rg l cs)
  let ?q = "Some (Node i ty rg l cs)"
  have "map ev_node (filter (\<lambda>ev. ev_phase ev = enter)
          (concat (map (\<lambda>c. visitNode c ?q) cs)))
        = concat (map (\<lambda>c. map ev_node (filter (\<lambda>ev. ev_phase ev = enter)
            (visitNode c ?q))) cs)"
    by (simp add: filter_concat map_concat comp_def del: visitNode.simps)
  also have "\<dots> = concat (map subnodes cs)"
    using Node.IH by (simp cong: map_cong del: visitNode.simps)
  finally show ?case by simp
qed

text \<open>The identities of the nodes in the events of a tree.\<close>

lemma node_ids_Node: "node_ids (Node i ty rg l cs) = i # concat (map node_ids cs)"
proof -
  have "(\<lambda>x. map nid (subnodes x)) = node_ids"
    by (rule ext) (simp add: node_ids_def)
  then show ?thesis
    by (simp add: node_ids_def[of "Node i ty rg l cs"] map_concat comp_def)
qed

lemma subnodes_children: "subnodes n = n # descendants n"
  by (cases n) (simp add: descendants_def)

lemma visitNode_children:
  "visitNode n par =
     \<lparr> ev_node = n, ev_parent = par, ev_phase = enter \<rparr>
       # concat (map (\<lambda>c. visitNode c (Some n)) (children n))
       @ [\<lparr> ev_node = n, ev_parent = par, ev_phase = exit \<rparr>]"
  by (cases n) simp

lemma event_keys_children:
  assumes "\<And>c. c \<in> set cs \<Longrightarrow> (k, ph) \<in> event_key ` set (g c) \<longleftrightarrow> k \<in> set (node_ids c)"
  shows "(k, ph) \<in> event_key ` set (concat (map g cs)) \<longleftrightarrow> k \<in> set (concat (map node_ids cs))"
  using assms by (induction cs) (auto simp: image_Un)

lemma event_ids:
  "(k, ph) \<in> event_key ` set (visitNode r par) \<longleftrightarrow> k \<in> set (node_ids r)"
proof (induction r arbitrary: par)
  case (Node i ty rg l cs)
  have mid: "(k, ph) \<in> event_key
                ` set (concat (map (\<lambda>c. visitNode c (Some (Node i ty rg l cs))) cs))
        \<longleftrightarrow> k \<in> set (concat (map node_ids cs))"
    by (rule event_keys_children) (rule Node.IH)
  have ends: "(k, ph) = event_key \<lparr> ev_node = Node i ty rg l cs, ev_parent = par, ev_phase = enter \<rparr>
      \<or> (k, ph) = event_key \<lparr> ev_node = Node i ty rg l cs, ev_parent = par, ev_phase = exit \<rparr>
      \<longleftrightarrow> k = i"
    by (cases ph) (auto simp: event_key_def)
  have "(k, ph) \<in> event_key ` set (visitNode (Node i ty rg l cs) par) \<longleftrightarrow>
      ((k, ph) = event_key \<lparr> ev_node = Node i ty rg l cs, ev_parent = par, ev_phase = enter \<rparr>
        \<or> (k, ph) = event_key \<lparr> ev_node = Node i ty rg l cs, ev_parent = par, ev_phase = exit \<rparr>)
      \<or> (k, ph) \<in> event_key
                ` set (concat (map (\<lambda>c. visitNode c (Some (Node i ty rg l cs))) cs))"
    by (auto simp: image_Un)
  then show ?case
    unfolding mid ends by (simp add: node_ids_Node)
qed

lemma distinct_concat_keys:
  assumes "distinct (concat (map ids cs))"
    and "\<And>c. c \<in> set cs \<Longrightarrow> distinct (ids c) \<Longrightarrow> distinct (map key (g c))"
    and "\<And>c e. c \<in> set cs \<Longrightarrow> e \<in> set (g c) \<Longrightarrow> fst (key e) \<in> set (ids c)"
  shows "distinct (map key (concat (map g cs)))"
  using assms
proof (induction cs)
  case Nil
  then show ?case by simp
next
  case (Cons c cs)
  have d1: "distinct (map key (g c))"
    using Cons.prems(1) by (intro Cons.prems(2)) simp_all
  have d2: "distinct (map key (concat (map g cs)))"
    using Cons.prems by (intro Cons.IH) simp_all
  have disj: "set (map key (g c)) \<inter> set (map key (concat (map g cs))) = {}"
  proof (rule ccontr)
    assume "set (map key (g c)) \<inter> set (map key (concat (map g cs))) \<noteq> {}"
    then obtain v where v: "v \<in> set (map key (g c))"
        "v \<in> set (map key (concat (map g cs)))"
      by auto
    from v(1) obtain e where e: "e \<in> set (g c)" and ve: "v = key e"
      by auto
    from v(2) obtain e' c' where c': "c' \<in> set cs" "e' \<in> set (g c')" and ve': "v = key e'"
      by auto
    from ve ve' have eq: "key e = key e'" by simp
    from Cons.prems(3)[of c e] e have "fst (key e) \<in> set (ids c)" by simp
    moreover from Cons.prems(3)[of c' e'] c' have "fst (key e') \<in> set (ids c')" by simp
    ultimately have "fst (key e) \<in> set (ids c) \<inter> set (concat (map ids cs))"
      using c'(1) eq by auto
    with Cons.prems(1) show False by auto
  qed
  from d1 d2 disj show ?case by simp
qed

lemma distinct_event_keys:
  "distinct (node_ids r) \<Longrightarrow> distinct (map event_key (visitNode r par))"
proof (induction r arbitrary: par)
  case (Node i ty rg l cs)
  let ?q = "Some (Node i ty rg l cs)"
  let ?mid = "concat (map (\<lambda>c. visitNode c ?q) cs)"
  from Node.prems have ids: "i \<notin> set (concat (map node_ids cs))"
    "distinct (concat (map node_ids cs))"
    by (simp_all add: node_ids_Node)
  have mid: "distinct (map event_key ?mid)"
  proof (rule distinct_concat_keys[where ids = node_ids])
    show "distinct (concat (map node_ids cs))" by (rule ids(2))
  next
    fix c assume "c \<in> set cs" "distinct (node_ids c)"
    then show "distinct (map event_key (visitNode c ?q))" by (rule Node.IH)
  next
    fix c e assume "c \<in> set cs" "e \<in> set (visitNode c ?q)"
    then have "(fst (event_key e), snd (event_key e)) \<in> event_key ` set (visitNode c ?q)"
      by simp
    then show "fst (event_key e) \<in> set (node_ids c)"
      unfolding event_ids .
  qed
  have out: "\<And>ph. (i, ph) \<notin> event_key ` set ?mid"
  proof -
    fix ph
    have "(i, ph) \<in> event_key ` set ?mid \<longleftrightarrow> i \<in> set (concat (map node_ids cs))"
      by (rule event_keys_children) (rule event_ids)
    with ids(1) show "(i, ph) \<notin> event_key ` set ?mid" by simp
  qed
  from mid out[of enter] out[of exit] show ?case
    by (simp add: event_key_def[of "\<lparr> ev_node = _, ev_parent = _, ev_phase = _ \<rparr>"])
qed

text \<open>Generic facts: in a list with distinct keys a key has one position and one element.\<close>

lemma unique_position:
  assumes "distinct (map f xs)" and "i < length xs" and "j < length xs"
    and "f (xs ! i) = f (xs ! j)"
  shows "i = j"
proof -
  have "map f xs ! i = map f xs ! j" using assms(2-4) by simp
  moreover have "i < length (map f xs)" "j < length (map f xs)" using assms(2,3) by simp_all
  ultimately show ?thesis using assms(1) nth_eq_iff_index_eq by blast
qed

lemma one_with_key:
  "distinct (map f xs) \<Longrightarrow> x \<in> set xs \<Longrightarrow> length (filter (\<lambda>y. f y = f x) xs) = 1"
proof (induction xs)
  case Nil
  then show ?case by simp
next
  case (Cons a xs)
  show ?case
  proof (cases "f a = f x")
    case True
    with Cons.prems(1) have "f x \<notin> f ` set xs" by simp
    then have "\<forall>y\<in>set xs. f y \<noteq> f x" by (metis imageI)
    then have "filter (\<lambda>y. f y = f x) xs = []" by (simp add: filter_empty_conv)
    with True show ?thesis by simp
  next
    case False
    with Cons.prems(2) have "x \<in> set xs" by auto
    with Cons.IH Cons.prems(1) False show ?thesis by simp
  qed
qed

text \<open>A node is larger than the nodes below it.\<close>

lemma subnodes_size: "m \<in> set (subnodes d) \<Longrightarrow> size m \<le> size d"
proof (induction d)
  case (Node i ty rg l cs)
  show ?case
  proof (cases "m = Node i ty rg l cs")
    case True
    then show ?thesis by simp
  next
    case False
    with Node.prems obtain c where c: "c \<in> set cs" "m \<in> set (subnodes c)" by auto
    from Node.IH[OF c] have "size m \<le> size c" .
    moreover from c(1) have "size c < size (Node i ty rg l cs)"
      by (simp add: less_Suc_eq_le size_list_estimation')
    ultimately show ?thesis by simp
  qed
qed

lemma descendants_size: "m \<in> set (descendants d) \<Longrightarrow> size m < size d"
proof -
  assume "m \<in> set (descendants d)"
  then obtain c where c: "c \<in> set (children d)" "m \<in> set (subnodes c)"
    by (auto simp: descendants_def)
  from c(2) have "size m \<le> size c" by (rule subnodes_size)
  moreover from c(1) have "size c < size d"
    by (cases d) (simp add: less_Suc_eq_le size_list_estimation')
  ultimately show ?thesis by simp
qed

lemma not_below_itself: "d \<notin> set (descendants d)"
  using descendants_size[of d d] by auto

text \<open>Filtering the nodes below a node for its children gives the children, in order.\<close>

lemma filter_heads:
  assumes "\<And>d. d \<in> set ds \<Longrightarrow> Q d"
    and "\<And>d m. d \<in> set ds \<Longrightarrow> m \<in> set (descendants d) \<Longrightarrow> \<not> Q m"
  shows "filter Q (concat (map subnodes ds)) = ds"
  using assms
proof (induction ds)
  case Nil
  then show ?case by simp
next
  case (Cons d ds)
  have "filter Q (descendants d) = []"
    using Cons.prems(2)[of d] by (simp add: filter_empty_conv)
  moreover have "Q d" using Cons.prems(1) by simp
  moreover have "filter Q (concat (map subnodes ds)) = ds"
  proof (rule Cons.IH)
    fix e assume "e \<in> set ds"
    then show "Q e" using Cons.prems(1)[of e] by simp
  next
    fix e m assume "e \<in> set ds" "m \<in> set (descendants e)"
    then show "\<not> Q m" using Cons.prems(2)[of e m] by simp
  qed
  ultimately show ?case by (simp add: subnodes_children[of d])
qed

text \<open>Where the events of a node and of the nodes below it stand.\<close>

lemma descendant_ids: "map nid (descendants n) = concat (map node_ids (children n))"
proof -
  have "(\<lambda>x. map nid (subnodes x)) = node_ids"
    by (rule ext) (simp add: node_ids_def)
  then show ?thesis by (simp add: descendants_def map_concat comp_def)
qed

lemma descendant_event_keys:
  "(k, ph) \<in> event_key ` set (concat (map (\<lambda>c. visitNode c q) (children n)))
     \<longleftrightarrow> k \<in> nid ` set (descendants n)"
proof -
  have "(k, ph) \<in> event_key ` set (concat (map (\<lambda>c. visitNode c q) (children n)))
      \<longleftrightarrow> k \<in> set (concat (map node_ids (children n)))"
    by (rule event_keys_children) (rule event_ids)
  also have "\<dots> \<longleftrightarrow> k \<in> set (map nid (descendants n))"
    by (simp only: descendant_ids)
  finally show ?thesis by simp
qed

lemma event_positions:
  assumes "distinct (node_ids r)" and "n \<in> set (subnodes r)"
  shows "\<exists>a b. a < b \<and> b < length (iterator r)
       \<and> event_key (iterator r ! a) = (nid n, enter)
       \<and> event_key (iterator r ! b) = (nid n, exit)
       \<and> (\<forall>j<length (iterator r).
             (\<exists>d\<in>set (descendants n). nid (ev_node (iterator r ! j)) = nid d)
             \<longrightarrow> a < j \<and> j < b)"
proof -
  let ?E = "iterator r"
  from visitNode_block[OF assms(2), of None]
  obtain pre post p where blk: "?E = pre @ visitNode n p @ post"
    unfolding iterator_def by blast
  let ?en = "\<lparr> ev_node = n, ev_parent = p, ev_phase = enter \<rparr>"
  let ?ex = "\<lparr> ev_node = n, ev_parent = p, ev_phase = exit \<rparr>"
  define mid where "mid = concat (map (\<lambda>c. visitNode c (Some n)) (children n))"
  have keys: "\<And>k ph. (k, ph) \<in> event_key ` set mid \<longleftrightarrow> k \<in> nid ` set (descendants n)"
    unfolding mid_def by (rule descendant_event_keys)
  have E: "?E = pre @ ?en # mid @ ?ex # post"
    unfolding blk mid_def by (subst visitNode_children) simp
  have dist: "distinct (map event_key ?E)"
    unfolding iterator_def using assms(1) by (rule distinct_event_keys)
  let ?a = "length pre"
  let ?b = "length pre + 1 + length mid"
  have len: "length ?E = length pre + 1 + length mid + 1 + length post"
    by (subst E) simp
  have a: "?E ! ?a = ?en" by (subst E) simp
  have b: "?E ! ?b = ?ex"
    by (subst E) (simp add: nth_append)
  have m: "\<And>k. k < length mid \<Longrightarrow> ?E ! (?a + 1 + k) = mid ! k"
    by (subst E) (simp add: nth_append)
  have inside: "\<forall>j<length ?E.
             (\<exists>d\<in>set (descendants n). nid (ev_node (?E ! j)) = nid d) \<longrightarrow> ?a < j \<and> j < ?b"
  proof (intro allI impI)
    fix j assume j: "j < length ?E"
      and "\<exists>d\<in>set (descendants n). nid (ev_node (?E ! j)) = nid d"
    then have "nid (ev_node (?E ! j)) \<in> nid ` set (descendants n)" by auto
    then have "(nid (ev_node (?E ! j)), ev_phase (?E ! j)) \<in> event_key ` set mid"
      unfolding keys .
    then obtain e where e1: "e \<in> set mid"
      and e2: "(nid (ev_node (?E ! j)), ev_phase (?E ! j)) = event_key e"
      by blast
    from e2 have e3: "event_key e = event_key (?E ! j)"
      by (simp add: event_key_def[of "?E ! j"])
    note e = e1 e3
    from e(1) obtain k where k: "k < length mid" "mid ! k = e"
      by (metis in_set_conv_nth)
    have "?a + 1 + k < length ?E" using k(1) len by simp
    moreover have "event_key (?E ! (?a + 1 + k)) = event_key (?E ! j)"
      using m[OF k(1)] k(2) e(2) by simp
    ultimately have "?a + 1 + k = j"
      using dist j by (intro unique_position[of event_key ?E]) simp_all
    with k(1) show "?a < j \<and> j < ?b" by auto
  qed
  have "?a < ?b" "?b < length ?E" using len by simp_all
  moreover have "event_key (?E ! ?a) = (nid n, enter)" unfolding a event_key_def by simp
  moreover have "event_key (?E ! ?b) = (nid n, exit)" unfolding b event_key_def by simp
  ultimately show ?thesis using inside by blast
qed

text \<open>The children of a node among the nodes of the tree, in the order of entry.\<close>

lemma subnodes_block:
  assumes "n \<in> set (subnodes r)"
  shows "\<exists>A B. subnodes r = A @ subnodes n @ B"
proof -
  from visitNode_block[OF assms, of None]
  obtain pre post p where blk: "visitNode r None = pre @ visitNode n p @ post"
    by blast
  have "subnodes r = map ev_node (filter (\<lambda>ev. ev_phase ev = enter) (visitNode r None))"
    by (simp only: entered_nodes)
  also have "\<dots> = map ev_node (filter (\<lambda>ev. ev_phase ev = enter) pre)
      @ map ev_node (filter (\<lambda>ev. ev_phase ev = enter) (visitNode n p))
      @ map ev_node (filter (\<lambda>ev. ev_phase ev = enter) post)"
    unfolding blk by simp
  finally show ?thesis
    unfolding entered_nodes by blast
qed

lemma child_below: "c \<in> set (children n) \<Longrightarrow> c \<in> set (descendants n)"
proof -
  assume "c \<in> set (children n)"
  moreover have "c \<in> set (subnodes c)" by (simp add: subnodes_children)
  ultimately show ?thesis by (auto simp: descendants_def)
qed

lemma below_child_not_child:
  assumes dist: "distinct (map nid (descendants n))"
    and d: "d \<in> set (children n)" and m: "m \<in> set (descendants d)"
  shows "\<not> (\<exists>c\<in>set (children n). nid m = nid c)"
proof
  assume "\<exists>c\<in>set (children n). nid m = nid c"
  then obtain c where c: "c \<in> set (children n)" "nid m = nid c" by blast
  from d obtain xs ys where cs: "children n = xs @ d # ys"
    by (auto simp: in_set_conv_decomp)
  have desc: "descendants n = concat (map subnodes xs) @ subnodes d @ concat (map subnodes ys)"
    unfolding descendants_def using cs by (rule concat_map_split)
  have md: "m \<in> set (subnodes d)" using m by (simp add: subnodes_children[of d])
  then have "m \<in> set (descendants n)" unfolding desc by simp
  moreover have "c \<in> set (descendants n)" using c(1) by (rule child_below)
  ultimately have mc: "m = c"
    using dist c(2) by (simp add: distinct_map inj_on_def)
  have "c \<noteq> d" using m mc not_below_itself[of d] by auto
  with c(1) cs have "c \<in> set xs \<or> c \<in> set ys" by auto
  moreover have "c \<in> set (subnodes c)" by (simp add: subnodes_children)
  ultimately have other: "c \<in> set (concat (map subnodes xs)) \<or> c \<in> set (concat (map subnodes ys))"
    by auto
  from dist have "distinct (descendants n)" by (simp add: distinct_map)
  then have "set (concat (map subnodes xs)) \<inter> set (subnodes d) = {}"
    "set (subnodes d) \<inter> set (concat (map subnodes ys)) = {}"
    unfolding desc by auto
  with other md mc show False by auto
qed

lemma entered_children:
  assumes "distinct (node_ids r)" and "n \<in> set (subnodes r)"
  shows "filter (\<lambda>m. \<exists>c\<in>set (children n). nid m = nid c) (subnodes r) = children n"
proof -
  let ?Q = "\<lambda>m. \<exists>c\<in>set (children n). nid m = nid c"
  from subnodes_block[OF assms(2)] obtain A B where blk: "subnodes r = A @ subnodes n @ B"
    by blast
  have dist: "distinct (map nid A @ nid n # map nid (descendants n) @ map nid B)"
    using assms(1) unfolding node_ids_def blk by (simp add: subnodes_children[of n])
  then have dn: "distinct (map nid (descendants n))" by simp
  have out: "\<And>m. m \<in> set A \<or> m = n \<or> m \<in> set B \<Longrightarrow> \<not> ?Q m"
  proof
    fix m assume m: "m \<in> set A \<or> m = n \<or> m \<in> set B" and "?Q m"
    then obtain c where c: "c \<in> set (children n)" "nid m = nid c" by blast
    from c(1) have "nid c \<in> nid ` set (descendants n)" by (simp add: child_below)
    with c(2) have "nid m \<in> nid ` set (descendants n)" by simp
    with dist m show False by auto
  qed
  have "filter ?Q A = []" "filter ?Q B = []" "\<not> ?Q n"
    using out by (auto simp: filter_empty_conv)
  moreover have "filter ?Q (descendants n) = children n"
    unfolding descendants_def
  proof (rule filter_heads)
    fix d assume "d \<in> set (children n)"
    then show "?Q d" by blast
  next
    fix d m assume "d \<in> set (children n)" "m \<in> set (descendants d)"
    with dn show "\<not> ?Q m" by (rule below_child_not_child)
  qed
  ultimately show ?thesis
    unfolding blk by (simp add: subnodes_children[of n])
qed

text \<open>From events to steps.\<close>

lemma step_of_simps:
  "targets (step_of e) m \<longleftrightarrow> nid (ev_node e) = nid m"
  "phase (step_of e) = 1 \<longleftrightarrow> ev_phase e = enter"
  "phase (step_of e) = Suc 0 \<longleftrightarrow> ev_phase e = enter"
  "phase (step_of e) = 2 \<longleftrightarrow> ev_phase e = exit"
  "target (step_of e) = ev_node e"
  by (cases "ev_phase e"; simp add: step_of_def targets_def)+

lemma step_is_key:
  "targets (step_of e) m \<and> phase (step_of e) = 1 \<longleftrightarrow> event_key e = (nid m, enter)"
  "targets (step_of e) m \<and> phase (step_of e) = Suc 0 \<longleftrightarrow> event_key e = (nid m, enter)"
  "targets (step_of e) m \<and> phase (step_of e) = 2 \<longleftrightarrow> event_key e = (nid m, exit)"
  by (simp_all add: step_of_simps event_key_def)

lemma steps_of_constructed:
  "steps_of (JSONSourceCode src a) = map step_of (iterator (doc a))"
proof -
  have "steps (JSONSourceCode src a) = None" "ast (JSONSourceCode src a) = a"
    by (simp_all add: JSONSourceCode_def Let_def)
  then show ?thesis
    by (simp add: steps_of_def traverse_fresh for_of_array)
qed

lemma one_step_per_phase:
  assumes "distinct (node_ids r)" and "n \<in> set (subnodes r)"
  shows "length (filter (\<lambda>s. targets s n \<and> phase s = 1) (map step_of (iterator r))) = 1"
    and "length (filter (\<lambda>s. targets s n \<and> phase s = 2) (map step_of (iterator r))) = 1"
proof -
  let ?E = "iterator r"
  from event_positions[OF assms] obtain a b where ab: "a < b" "b < length ?E"
    "event_key (?E ! a) = (nid n, enter)" "event_key (?E ! b) = (nid n, exit)"
    by blast
  have dist: "distinct (map event_key ?E)"
    unfolding iterator_def using assms(1) by (rule distinct_event_keys)
  have ina: "?E ! a \<in> set ?E" and inb: "?E ! b \<in> set ?E"
    using ab(1,2) by simp_all
  have "length (filter (\<lambda>s. targets s n \<and> phase s = 1) (map step_of ?E))
      = length (filter (\<lambda>e. event_key e = event_key (?E ! a)) ?E)"
    by (simp add: filter_map comp_def step_is_key ab(3))
  also have "\<dots> = 1" using dist ina by (rule one_with_key)
  finally show "length (filter (\<lambda>s. targets s n \<and> phase s = 1) (map step_of ?E)) = 1" .
  have "length (filter (\<lambda>s. targets s n \<and> phase s = 2) (map step_of ?E))
      = length (filter (\<lambda>e. event_key e = event_key (?E ! b)) ?E)"
    by (simp add: filter_map comp_def step_is_key ab(4))
  also have "\<dots> = 1" using dist inb by (rule one_with_key)
  finally show "length (filter (\<lambda>s. targets s n \<and> phase s = 2) (map step_of ?E)) = 1" .
qed

lemma steps_between:
  assumes "distinct (node_ids r)" and "n \<in> set (subnodes r)"
    and "i < length (iterator r)" and "j < length (iterator r)"
    and "targets (map step_of (iterator r) ! i) n"
    and "\<exists>d\<in>set (descendants n). targets (map step_of (iterator r) ! j) d"
  shows "(phase (map step_of (iterator r) ! i) = 1 \<longrightarrow> i < j)
       \<and> (phase (map step_of (iterator r) ! i) = 2 \<longrightarrow> j < i)"
proof -
  let ?E = "iterator r"
  from event_positions[OF assms(1,2)] obtain a b where ab: "a < b" "b < length ?E"
    "event_key (?E ! a) = (nid n, enter)" "event_key (?E ! b) = (nid n, exit)"
    and inside: "\<forall>j<length ?E.
             (\<exists>d\<in>set (descendants n). nid (ev_node (?E ! j)) = nid d) \<longrightarrow> a < j \<and> j < b"
    by blast
  have dist: "distinct (map event_key ?E)"
    unfolding iterator_def using assms(1) by (rule distinct_event_keys)
  have ti: "nid (ev_node (?E ! i)) = nid n"
    using assms(3,5) by (simp add: step_of_simps)
  have "\<exists>d\<in>set (descendants n). nid (ev_node (?E ! j)) = nid d"
    using assms(4,6) by (simp add: step_of_simps)
  with inside assms(4) have j: "a < j" "j < b" by simp_all
  have enter: "phase (map step_of ?E ! i) = 1 \<Longrightarrow> i = a"
  proof -
    assume "phase (map step_of ?E ! i) = 1"
    with ti assms(3) have "event_key (?E ! i) = event_key (?E ! a)"
      by (simp add: step_of_simps event_key_def[of "?E ! i"] ab(3))
    with dist assms(3) ab(1,2) show "i = a"
      by (intro unique_position[of event_key ?E]) simp_all
  qed
  have exit: "phase (map step_of ?E ! i) = 2 \<Longrightarrow> i = b"
  proof -
    assume "phase (map step_of ?E ! i) = 2"
    with ti assms(3) have "event_key (?E ! i) = event_key (?E ! b)"
      by (simp add: step_of_simps event_key_def[of "?E ! i"] ab(4))
    with dist assms(3) ab(2) show "i = b"
      by (intro unique_position[of event_key ?E]) simp_all
  qed
  from enter exit j show ?thesis by auto
qed

lemma children_entered_in_order:
  assumes "distinct (node_ids r)" and "n \<in> set (subnodes r)"
  shows "map target (filter (\<lambda>s. phase s = 1 \<and> (\<exists>c\<in>set (children n). targets s c))
           (map step_of (iterator r))) = children n"
proof -
  let ?Q = "\<lambda>m. \<exists>c\<in>set (children n). nid m = nid c"
  have "map target (filter (\<lambda>s. phase s = 1 \<and> (\<exists>c\<in>set (children n). targets s c))
           (map step_of (iterator r)))
      = map ev_node (filter (\<lambda>e. ev_phase e = enter \<and> ?Q (ev_node e)) (iterator r))"
    by (simp add: filter_map comp_def step_of_simps)
  also have "\<dots> = filter ?Q (map ev_node (filter (\<lambda>e. ev_phase e = enter) (iterator r)))"
    by (simp add: filter_map comp_def)
  also have "\<dots> = filter ?Q (subnodes r)"
    unfolding iterator_def entered_nodes ..
  also have "\<dots> = children n"
    using assms by (rule entered_children)
  finally show ?thesis .
qed

text \<open>
  C2. Let the nodes of the AST be objects of their own (distinct identities) and \<open>n\<close> a
  node of the AST. Among the steps that \<open>traverse\<close> yields there is exactly one step
  with phase 1 (enter) and exactly one with phase 2 (exit) whose target is \<open>n\<close>; the
  enter step of \<open>n\<close> stands before, and its exit step after, every step whose target is
  a node below \<open>n\<close> (its children and what is below them); and the enter steps of the
  children of \<open>n\<close>, in the order of the sequence, are the children of \<open>n\<close> in the order
  of its child sequence.
\<close>

theorem traversal_order:
  assumes "distinct (node_ids (doc a))" and "n \<in> set (subnodes (doc a))"
  shows "length (filter (\<lambda>s. targets s n \<and> phase s = 1) (steps_of (JSONSourceCode src a))) = 1
   \<and> length (filter (\<lambda>s. targets s n \<and> phase s = 2) (steps_of (JSONSourceCode src a))) = 1
   \<and> (\<forall>i j. i < length (steps_of (JSONSourceCode src a))
         \<and> j < length (steps_of (JSONSourceCode src a))
         \<and> targets (steps_of (JSONSourceCode src a) ! i) n
         \<and> (\<exists>d\<in>set (descendants n). targets (steps_of (JSONSourceCode src a) ! j) d)
       \<longrightarrow> (phase (steps_of (JSONSourceCode src a) ! i) = 1 \<longrightarrow> i < j)
           \<and> (phase (steps_of (JSONSourceCode src a) ! i) = 2 \<longrightarrow> j < i))
   \<and> map target (filter (\<lambda>s. phase s = 1 \<and> (\<exists>c\<in>set (children n). targets s c))
         (steps_of (JSONSourceCode src a))) = children n"
  unfolding steps_of_constructed
proof (intro conjI allI impI)
  show "length (filter (\<lambda>s. targets s n \<and> phase s = 1) (map step_of (iterator (doc a)))) = 1"
    using assms by (rule one_step_per_phase(1))
  show "length (filter (\<lambda>s. targets s n \<and> phase s = 2) (map step_of (iterator (doc a)))) = 1"
    using assms by (rule one_step_per_phase(2))
  show "map target (filter (\<lambda>s. phase s = 1 \<and> (\<exists>c\<in>set (children n). targets s c))
         (map step_of (iterator (doc a)))) = children n"
    using assms by (rule children_entered_in_order)
next
  fix i j
  assume h: "i < length (map step_of (iterator (doc a)))
         \<and> j < length (map step_of (iterator (doc a)))
         \<and> targets (map step_of (iterator (doc a)) ! i) n
         \<and> (\<exists>d\<in>set (descendants n). targets (map step_of (iterator (doc a)) ! j) d)"
  then have i: "i < length (iterator (doc a))" and j: "j < length (iterator (doc a))"
    by simp_all
  from h have ti: "targets (map step_of (iterator (doc a)) ! i) n"
    and tj: "\<exists>d\<in>set (descendants n). targets (map step_of (iterator (doc a)) ! j) d"
    by blast+
  note between = steps_between[OF assms i j ti tj]
  {
    assume "phase (map step_of (iterator (doc a)) ! i) = 1"
    with between show "i < j" by blast
  }
  {
    assume "phase (map step_of (iterator (doc a)) ! i) = 2"
    with between show "j < i" by blast
  }
qed

lemma example_tree:
  "distinct (node_ids (doc example_document))"
  "array_node \<in> set (subnodes (doc example_document))"
  "children array_node = [element_one, element_two]"
  by (simp_all add: node_ids_def example_document_def document_root_def array_node_def
        element_one_def element_two_def number_one_def number_two_def)

text \<open>
  On the example document, for the array node: one enter and one exit step, and its two
  elements entered in their order.
\<close>

theorem traversal_order_witness:
  "distinct (node_ids (doc example_document))
   \<and> array_node \<in> set (subnodes (doc example_document))
   \<and> length (filter (\<lambda>s. targets s array_node \<and> phase s = 1) (steps_of example_model)) = 1
   \<and> length (filter (\<lambda>s. targets s array_node \<and> phase s = 2) (steps_of example_model)) = 1
   \<and> map target (filter (\<lambda>s. phase s = 1 \<and> (\<exists>c\<in>set (children array_node). targets s c))
         (steps_of example_model)) = [element_one, element_two]
   \<and> map (\<lambda>s. (nid (target s), phase s)) (steps_of example_model)
       = [(0, 1), (1, 1), (2, 1), (3, 1), (3, 2), (2, 2), (4, 1), (5, 1), (5, 2), (4, 2),
          (1, 2), (0, 2)]"
proof -
  note order = traversal_order[OF example_tree(1,2), of example_text,
      folded example_model_def]
  from order have one: "length (filter (\<lambda>s. targets s array_node \<and> phase s = 1)
      (steps_of example_model)) = 1"
    by (rule conjunct1)
  from order have two: "length (filter (\<lambda>s. targets s array_node \<and> phase s = 2)
      (steps_of example_model)) = 1"
    by (elim conjE)
  from order have kids: "map target
      (filter (\<lambda>s. phase s = 1 \<and> (\<exists>c\<in>set (children array_node). targets s c))
         (steps_of example_model)) = [element_one, element_two]"
    unfolding example_tree(3)[symmetric] by (elim conjE)
  have all: "map (\<lambda>s. (nid (target s), phase s)) (steps_of example_model)
       = [(0, 1), (1, 1), (2, 1), (3, 1), (3, 2), (2, 2), (4, 1), (5, 1), (5, 2), (4, 2),
          (1, 2), (0, 2)]"
    unfolding example_model_def steps_of_constructed by (rule example_steps)
  from example_tree(1,2) one two kids all show ?thesis by (intro conjI)
qed

subsection \<open>The parent cache\<close>

text \<open>A traversal records a parent for every node below the root.\<close>

lemma record_parent_fold_dom:
  "foldl record_parent ps evs k \<noteq> None \<longleftrightarrow>
     ps k \<noteq> None \<or> (\<exists>ev\<in>set evs. nid (ev_node ev) = k \<and> ev_parent ev \<noteq> None)"
proof (induction evs arbitrary: ps)
  case Nil
  then show ?case by simp
next
  case (Cons ev evs)
  show ?case
    unfolding foldl_Cons Cons.IH
    by (cases "ev_parent ev") (auto simp: record_parent_def)
qed

lemma visitNode_event_of_subnode:
  "n \<in> set (subnodes r) \<Longrightarrow> par \<noteq> None \<Longrightarrow>
     \<exists>ev\<in>set (visitNode r par). ev_node ev = n \<and> ev_parent ev \<noteq> None"
proof (induction r arbitrary: par)
  case (Node i ty rg l cs)
  show ?case
  proof (cases "n = Node i ty rg l cs")
    case True
    with Node.prems(2) show ?thesis by auto
  next
    case False
    with Node.prems(1) obtain c where c: "c \<in> set cs" "n \<in> set (subnodes c)"
      by auto
    from Node.IH[OF c(1) c(2), of "Some (Node i ty rg l cs)"]
    obtain ev where "ev \<in> set (visitNode c (Some (Node i ty rg l cs)))"
      "ev_node ev = n" "ev_parent ev \<noteq> None"
      by auto
    with c(1) show ?thesis by auto
  qed
qed

lemma iterator_event_of_descendant:
  assumes "n \<in> set (descendants r)"
  shows "\<exists>ev\<in>set (iterator r). ev_node ev = n \<and> ev_parent ev \<noteq> None"
proof (cases r)
  case (Node i ty rg l cs)
  with assms obtain c where c: "c \<in> set cs" "n \<in> set (subnodes c)"
    by (auto simp: descendants_def)
  from visitNode_event_of_subnode[OF c(2), of "Some r"]
  obtain ev where "ev \<in> set (visitNode c (Some r))" "ev_node ev = n" "ev_parent ev \<noteq> None"
    by auto
  with c(1) Node show ?thesis by (auto simp: iterator_def)
qed

text \<open>
  With distinct identities, what the traversal records for a child is the node whose
  child it is.
\<close>

lemma record_parent_fold_value:
  assumes "\<forall>ev\<in>set evs. nid (ev_node ev) = k \<longrightarrow> ev_parent ev = Some p"
  shows "foldl record_parent ps evs k
           = (if \<exists>ev\<in>set evs. nid (ev_node ev) = k then Some p else ps k)"
  using assms
proof (induction evs arbitrary: ps)
  case Nil
  then show ?case by simp
next
  case (Cons ev evs)
  have rest: "\<forall>ev\<in>set evs. nid (ev_node ev) = k \<longrightarrow> ev_parent ev = Some p"
    using Cons.prems by simp
  have here: "record_parent ps ev k = (if nid (ev_node ev) = k then Some p else ps k)"
    using Cons.prems by (cases "ev_parent ev") (auto simp: record_parent_def)
  show ?case
    unfolding foldl_Cons Cons.IH[OF rest] here by auto
qed

lemma child_events:
  assumes "distinct (node_ids r)" and "p \<in> set (subnodes r)" and "c \<in> set (children p)"
  shows "\<forall>ev\<in>set (iterator r). nid (ev_node ev) = nid c \<longrightarrow> ev_parent ev = Some p"
    and "\<exists>ev\<in>set (iterator r). nid (ev_node ev) = nid c"
proof -
  let ?E = "iterator r"
  let ?e1 = "\<lparr> ev_node = c, ev_parent = Some p, ev_phase = enter \<rparr>"
  let ?e2 = "\<lparr> ev_node = c, ev_parent = Some p, ev_phase = exit \<rparr>"
  from visitNode_block[OF assms(2), of None]
  obtain pre post q where blk: "?E = pre @ visitNode p q @ post"
    unfolding iterator_def by blast
  have "set (visitNode c (Some p)) \<subseteq> set (visitNode p q)"
    using assms(3) by (subst (2) visitNode_children) auto
  moreover have "?e1 \<in> set (visitNode c (Some p))" "?e2 \<in> set (visitNode c (Some p))"
    by (subst visitNode_children, simp)+
  ultimately have in1: "?e1 \<in> set ?E" and in2: "?e2 \<in> set ?E"
    unfolding blk by auto
  have "distinct (map event_key ?E)"
    unfolding iterator_def using assms(1) by (rule distinct_event_keys)
  then have inj: "inj_on event_key (set ?E)" by (simp add: distinct_map)
  show "\<forall>ev\<in>set ?E. nid (ev_node ev) = nid c \<longrightarrow> ev_parent ev = Some p"
  proof (intro ballI impI)
    fix ev assume ev: "ev \<in> set ?E" "nid (ev_node ev) = nid c"
    show "ev_parent ev = Some p"
    proof (cases "ev_phase ev")
      case enter
      with ev(2) have "event_key ev = event_key ?e1" by (simp add: event_key_def)
      with inj ev(1) in1 have "ev = ?e1" by (simp add: inj_on_def)
      then show ?thesis by (metis iter_event.select_convs(2))
    next
      case exit
      with ev(2) have "event_key ev = event_key ?e2" by (simp add: event_key_def)
      with inj ev(1) in2 have "ev = ?e2" by (simp add: inj_on_def)
      then show ?thesis by (metis iter_event.select_convs(2))
    qed
  qed
  from in1 show "\<exists>ev\<in>set ?E. nid (ev_node ev) = nid c"
    by (intro bexI[of _ ?e1]) simp_all
qed

lemma recorded_parent:
  assumes "distinct (node_ids r)" and "p \<in> set (subnodes r)" and "c \<in> set (children p)"
  shows "foldl record_parent ps (iterator r) (nid c) = Some p"
  using record_parent_fold_value[OF child_events(1)[OF assms], of ps] child_events(2)[OF assms]
  by simp

lemma traverse_fresh_parents_map:
  "steps sc = None \<Longrightarrow>
     parents (snd (traverse sc)) = foldl record_parent (parents sc) (iterator (doc (ast sc)))"
  by (simp add: traverse_fresh)

text \<open>The caches after a sequence of calls on a new instance.\<close>

lemma parents_after_calls:
  "ast (after_calls cp (JSONSourceCode src a) ops) = a
   \<and> (Traverse \<notin> set ops \<longrightarrow>
         steps (after_calls cp (JSONSourceCode src a) ops) = None
         \<and> parents (after_calls cp (JSONSourceCode src a) ops) = Map.empty)
   \<and> (Traverse \<in> set ops \<longrightarrow>
         steps (after_calls cp (JSONSourceCode src a) ops) \<noteq> None
         \<and> parents (after_calls cp (JSONSourceCode src a) ops)
             = foldl record_parent Map.empty (iterator (doc a)))"
proof (induction ops rule: rev_induct)
  case Nil
  show ?case
    by (simp add: after_calls_def constructed_ast constructed_cache_empty)
next
  case (snoc op ops)
  let ?s = "after_calls cp (JSONSourceCode src a) ops"
  have step: "after_calls cp (JSONSourceCode src a) (ops @ [op]) = after_call cp ?s op"
    by (rule after_calls_snoc)
  show ?case
  proof (cases "op = Traverse")
    case False
    with snoc.IH other_calls_keep[OF False, of cp ?s] show ?thesis
      unfolding step by simp
  next
    case True
    show ?thesis
    proof (cases "steps ?s")
      case None
      with snoc.IH have "parents ?s = Map.empty" by auto
      with snoc.IH have "parents (snd (traverse ?s))
          = foldl record_parent Map.empty (iterator (doc a))"
        by (simp add: traverse_fresh_parents_map[OF None])
      moreover have "steps (snd (traverse ?s)) \<noteq> None"
        using traverse_sets_cache[of ?s] by auto
      moreover have "ast (snd (traverse ?s)) = a"
        using snoc.IH by (simp add: traverse_keeps_ast)
      ultimately show ?thesis unfolding step using True by simp
    next
      case (Some xs)
      then have "snd (traverse ?s) = ?s" by (simp add: traverse_cached_state)
      moreover from Some snoc.IH have "Traverse \<in> set ops" by auto
      ultimately show ?thesis unfolding step using True snoc.IH by simp
    qed
  qed
qed

lemma recorded_defined:
  assumes "n \<in> set (descendants r)"
  shows "foldl record_parent Map.empty (iterator r) (nid n) \<noteq> None"
  unfolding record_parent_fold_dom
  using iterator_event_of_descendant[OF assms] by blast

text \<open>
  C9. Take the constructed model after any sequence of calls of its interface. When no
  call of \<open>traverse\<close> is among them, \<open>getParent\<close> is undefined for every node: no other
  call fills the parent cache. When a call of \<open>traverse\<close> is among them, \<open>getParent\<close> is
  defined for every node of the AST below the root; and when the nodes of the AST are
  objects of their own (distinct identities), it is the node whose child the node is.
\<close>

theorem parents_only_by_traversal:
  "(Traverse \<notin> set ops \<longrightarrow>
      (\<forall>n. getParent (after_calls commentParser (JSONSourceCode src a) ops) n = None))
   \<and> (Traverse \<in> set ops \<longrightarrow>
      (\<forall>n\<in>set (descendants (doc a)).
         \<exists>p. getParent (after_calls commentParser (JSONSourceCode src a) ops) n = Some p))
   \<and> (Traverse \<in> set ops \<and> distinct (node_ids (doc a)) \<longrightarrow>
      (\<forall>p\<in>set (subnodes (doc a)). \<forall>c\<in>set (children p).
         getParent (after_calls commentParser (JSONSourceCode src a) ops) c = Some p))"
proof (intro conjI impI allI ballI)
  fix n assume "Traverse \<notin> set ops"
  then show "getParent (after_calls commentParser (JSONSourceCode src a) ops) n = None"
    using parents_after_calls[of commentParser src a ops] by (simp add: getParent_def)
next
  fix n assume "Traverse \<in> set ops" "n \<in> set (descendants (doc a))"
  then show "\<exists>p. getParent (after_calls commentParser (JSONSourceCode src a) ops) n = Some p"
    using parents_after_calls[of commentParser src a ops] recorded_defined[of n "doc a"]
    by (simp add: getParent_def)
next
  fix p c
  assume h: "Traverse \<in> set ops \<and> distinct (node_ids (doc a))"
    and p: "p \<in> set (subnodes (doc a))" and c: "c \<in> set (children p)"
  from h p c have "foldl record_parent Map.empty (iterator (doc a)) (nid c) = Some p"
    by (intro recorded_parent) simp_all
  with h show "getParent (after_calls commentParser (JSONSourceCode src a) ops) c = Some p"
    using parents_after_calls[of commentParser src a ops] by (simp add: getParent_def)
qed

text \<open>
  On the example document: after calls that do not traverse, the number 1 has no parent;
  after a traversal its parent is the array element that holds it.
\<close>

theorem parents_only_by_traversal_witness:
  "Traverse \<notin> set [GetDisableDirectives, GetTokenBefore (ANode number_one) True]
   \<and> getParent (after_calls example_parser (JSONSourceCode example_text example_document)
         [GetDisableDirectives, GetTokenBefore (ANode number_one) True]) number_one = None
   \<and> Traverse \<in> set [GetInlineConfigNodes, Traverse]
   \<and> distinct (node_ids (doc example_document))
   \<and> element_one \<in> set (subnodes (doc example_document))
   \<and> number_one \<in> set (children element_one)
   \<and> number_one \<in> set (descendants (doc example_document))
   \<and> getParent (after_calls example_parser (JSONSourceCode example_text example_document)
         [GetInlineConfigNodes, Traverse]) number_one = Some element_one"
proof -
  have a: "Traverse \<notin> set [GetDisableDirectives, GetTokenBefore (ANode number_one) True]"
    by simp
  have b: "Traverse \<in> set [GetInlineConfigNodes, Traverse]"
    by simp
  have c: "number_one \<in> set (descendants (doc example_document))"
    by (simp add: descendants_def example_eval)
  have d: "element_one \<in> set (subnodes (doc example_document))"
    "number_one \<in> set (children element_one)"
    by (simp_all add: example_document_def document_root_def array_node_def element_one_def
          element_two_def number_one_def number_two_def)
  have none: "getParent (after_calls example_parser (JSONSourceCode example_text example_document)
         [GetDisableDirectives, GetTokenBefore (ANode number_one) True]) number_one = None"
    using parents_only_by_traversal
      [of "[GetDisableDirectives, GetTokenBefore (ANode number_one) True]"
          example_parser example_text example_document] a
    by blast
  have defined: "\<exists>p. getParent (after_calls example_parser
      (JSONSourceCode example_text example_document) [GetInlineConfigNodes, Traverse]) number_one
      = Some p"
    using parents_only_by_traversal
      [of "[GetInlineConfigNodes, Traverse]" example_parser example_text example_document] b c
    by blast
  have some: "getParent (after_calls example_parser
      (JSONSourceCode example_text example_document) [GetInlineConfigNodes, Traverse]) number_one
      = Some element_one"
    using parents_only_by_traversal
      [of "[GetInlineConfigNodes, Traverse]" example_parser example_text example_document]
      b example_tree(1) d
    by blast
  from a none b example_tree(1) d c some show ?thesis by (intro conjI)
qed

section \<open>The life of an instance\<close>

text \<open>
  No call of the interface changes the text, the AST, the comment list or the boundary
  maps: the token queries give the same at every time in the life of an instance, so
  what holds of them on the constructed model holds after any calls.
\<close>

lemma after_call_frozen:
  "ast (after_call cp sc op) = ast sc \<and> tokenStarts (after_call cp sc op) = tokenStarts sc
     \<and> tokenEnds (after_call cp sc op) = tokenEnds sc
     \<and> comments (after_call cp sc op) = comments sc
     \<and> src_text (after_call cp sc op) = src_text sc"
proof -
  have t: "ast (snd (traverse sc)) = ast sc \<and> tokenStarts (snd (traverse sc)) = tokenStarts sc
     \<and> tokenEnds (snd (traverse sc)) = tokenEnds sc
     \<and> comments (snd (traverse sc)) = comments sc
     \<and> src_text (snd (traverse sc)) = src_text sc"
    by (cases "steps sc") (simp_all add: traverse_fresh traverse_cached_state)
  have n: "ast (snd (getInlineConfigNodes sc)) = ast sc
     \<and> tokenStarts (snd (getInlineConfigNodes sc)) = tokenStarts sc
     \<and> tokenEnds (snd (getInlineConfigNodes sc)) = tokenEnds sc
     \<and> comments (snd (getInlineConfigNodes sc)) = comments sc
     \<and> src_text (snd (getInlineConfigNodes sc)) = src_text sc"
    using getInlineConfigNodes_state[of sc] by auto
  from t n show ?thesis
    by (cases op) (simp_all add: getDisableDirectives_state applyInlineConfig_state)
qed

lemma after_calls_frozen:
  "ast (after_calls cp sc ops) = ast sc \<and> tokenStarts (after_calls cp sc ops) = tokenStarts sc
     \<and> tokenEnds (after_calls cp sc ops) = tokenEnds sc
     \<and> comments (after_calls cp sc ops) = comments sc
     \<and> src_text (after_calls cp sc ops) = src_text sc"
proof (induction ops rule: rev_induct)
  case Nil
  show ?case by (simp add: after_calls_def)
next
  case (snoc op ops)
  with after_call_frozen[of cp "after_calls cp sc ops" op] show ?case
    by (simp add: after_calls_snoc)
qed

lemma token_queries_at_any_time:
  "getTokenBefore (after_calls cp sc ops) e inc = getTokenBefore sc e inc"
  "getTokenAfter (after_calls cp sc ops) e inc = getTokenAfter sc e inc"
proof -
  have same: "ast (after_calls cp sc ops) = ast sc"
    "tokenStarts (after_calls cp sc ops) = tokenStarts sc"
    "tokenEnds (after_calls cp sc ops) = tokenEnds sc"
    using after_calls_frozen[of cp sc ops] by simp_all
  show "getTokenBefore (after_calls cp sc ops) e inc = getTokenBefore sc e inc"
    unfolding getTokenBefore_def same ..
  show "getTokenAfter (after_calls cp sc ops) e inc = getTokenAfter sc e inc"
    unfolding getTokenAfter_def same ..
qed

end
